theory Spec2Isabelle
  imports Main "HOL-Library.Multiset"
begin

section \<open>Logging and text helpers\<close>

text \<open>
  The modules log through \<open>log.info\<close>, \<open>log.error\<close>, \<open>log.warning\<close> and \<open>log.debug\<close>.
  A log is the list of the entries written so far, oldest first; an entry is the level and
  the formatted message. An exception is represented by its message, the text that
  \<open>str(e)\<close> and the f-string \<open>{e}\<close> produce.
\<close>

datatype level = DEBUG | INFO | WARNING | ERROR

type_synonym log_entry = "level \<times> string"

text \<open>Decimal rendering of a natural number, as an f-string renders a non-negative int.\<close>

definition digit_char :: "nat \<Rightarrow> char" where
  "digit_char d = char_of (48 + d)"

function str_nat :: "nat \<Rightarrow> string" where
  "str_nat n = (if n < 10 then [digit_char n] else str_nat (n div 10) @ [digit_char (n mod 10)])"
  by pat_completeness auto
termination
  by (relation "measure (\<lambda>n. n)") auto

declare str_nat.simps [simp del]

section \<open>watchers.py: the upstream watch loops\<close>

text \<open>
  \<open>InferenceServiceWatcher\<close> and \<open>EventWatcher\<close> run on their own thread against the
  Kubernetes watch API. What the cluster does is the input of the model:
  \<^item> one call of \<open>self.watch.stream(...)\<close> is an \<^emph>\<open>attempt\<close>: the items the generator yields,
    then how it ends (it is exhausted, as after \<open>timeout_seconds=300\<close>, or it raises);
  \<^item> an item \<open>Event\<close> is the dict the generator yields, given by its entries under the
    keys \<open>type\<close> and \<open>object\<close>, \<open>None\<close> for a key that the dict does not have;
  \<^item> \<open>Stop_called\<close> among the items marks the point where another thread runs \<open>stop()\<close>
    on this watcher;
  \<^item> a run of the \<open>while\<close> loop is driven by the list of attempts the cluster offers; when
    the list is used up and the loop has not returned, the loop is still \<open>Running\<close>.
  The state of a run holds \<open>self._stop_requested\<close>, the log, the arguments of the
  \<open>time.sleep\<close> calls made so far, and the state the callback works on.
\<close>

datatype 'o stream_item = Event "string option" "'o option" | Stop_called

datatype stream_end = Stream_finished | Api_exception string | Other_exception string

type_synonym 'o attempt = "'o stream_item list \<times> stream_end"

record 's watcher_run =
  stop_requested :: bool
  wlog :: "log_entry list"
  slept :: "nat list"
  cb_state :: 's

text \<open>
  A callback takes the event type and the object and works on its own state; it returns
  \<open>None\<close>, or \<open>Some e\<close> when it raises the exception \<open>e\<close> (the state is what it had done
  until then).
\<close>

type_synonym ('o, 's) callback = "string \<Rightarrow> 'o \<Rightarrow> 's \<Rightarrow> string option \<times> 's"

definition new_watcher :: "'s \<Rightarrow> 's watcher_run" where
  "new_watcher s = \<lparr>stop_requested = False, wlog = [], slept = [], cb_state = s\<rparr>"

definition log_to :: "level \<Rightarrow> string \<Rightarrow> 's watcher_run \<Rightarrow> 's watcher_run" where
  "log_to lvl msg r = r\<lparr>wlog := wlog r @ [(lvl, msg)]\<rparr>"

definition sleep :: "nat \<Rightarrow> 's watcher_run \<Rightarrow> 's watcher_run" where
  "sleep delay r = r\<lparr>slept := slept r @ [delay]\<rparr>"

text \<open>\<open>stop\<close>: sets the flag (the call of \<open>self.watch.stop()\<close> is inside its own try/except).\<close>

definition stop :: "'s watcher_run \<Rightarrow> 's watcher_run" where
  "stop r = r\<lparr>stop_requested := True\<rparr>"

text \<open>
  \<open>_reconnect_with_backoff(self, initial_delay=1, max_delay=32)\<close>, the same in both classes.
  The body of its \<open>while\<close> ends in an unconditional \<open>break\<close>, so the body runs at most once:
  the loop is the conditional below, and the doubled \<open>delay\<close> is never read again.
\<close>

definition reconnect_with_backoff :: "nat \<Rightarrow> nat \<Rightarrow> 's watcher_run \<Rightarrow> 's watcher_run" where
  "reconnect_with_backoff initial_delay max_delay r =
     (let delay = initial_delay in
      if delay \<le> max_delay \<and> \<not> stop_requested r
      then (let r1 = log_to INFO (''Reconnecting in '' @ str_nat delay @ '' seconds...'') r;
                r2 = sleep delay r1;
                delay = delay * 2
            in r2)
      else r)"

text \<open>
  The \<open>for event in self.watch.stream(...)\<close> loop over the items of one attempt. The loop
  ends when the items are exhausted, by \<open>break\<close>, or by an exception raised in its body
  outside the inner \<open>try\<close>: \<open>event["type"]\<close> and \<open>event["object"]\<close> raise \<open>KeyError\<close> on a
  missing key.
\<close>

datatype for_end = Exhausted | Broke | Raised string

fun consume_stream ::
  "('o, 's) callback \<Rightarrow> 'o stream_item list \<Rightarrow> 's watcher_run \<Rightarrow> for_end \<times> 's watcher_run" where
  "consume_stream event_callback [] r = (Exhausted, r)"
| "consume_stream event_callback (Stop_called # rest) r = consume_stream event_callback rest (stop r)"
| "consume_stream event_callback (Event type_entry object_entry # rest) r =
     (if stop_requested r then (Broke, r)
      else
        (case type_entry of
           None \<Rightarrow> (Raised ([CHR 0x27] @ ''type'' @ [CHR 0x27]), r)
         | Some event_type \<Rightarrow>
            (case object_entry of
               None \<Rightarrow> (Raised ([CHR 0x27] @ ''object'' @ [CHR 0x27]), r)
             | Some obj \<Rightarrow>
                (case event_callback event_type obj (cb_state r) of
                   (None, s) \<Rightarrow> consume_stream event_callback rest (r\<lparr>cb_state := s\<rparr>)
                 | (Some e, s) \<Rightarrow>
                     consume_stream event_callback rest
                       (log_to ERROR (''Error in event callback: '' @ e) (r\<lparr>cb_state := s\<rparr>))))))"

datatype loop_status = Returned | Running

text \<open>
  The \<open>while not self._stop_requested\<close> loop, which the three watch methods share word for
  word but for the message logged at the start of each attempt. After a \<open>break\<close> the loop
  test is made again. An exception out of the body of the \<open>for\<close> loop is not an
  \<open>ApiException\<close> and reaches the \<open>except Exception\<close> clause, as one raised by the stream
  does.
\<close>

fun watch_loop ::
  "string \<Rightarrow> ('o, 's) callback \<Rightarrow> 'o attempt list \<Rightarrow> 's watcher_run \<Rightarrow> loop_status \<times> 's watcher_run"
  where
  "watch_loop start_msg event_callback [] r = (if stop_requested r then Returned else Running, r)"
| "watch_loop start_msg event_callback ((items, ending) # rest) r =
     (if stop_requested r then (Returned, r)
      else
        (case consume_stream event_callback items (log_to INFO start_msg r) of
           (Broke, r2) \<Rightarrow> watch_loop start_msg event_callback rest r2
         | (Raised e, r2) \<Rightarrow>
             if stop_requested r2 then (Returned, r2)
             else watch_loop start_msg event_callback rest
                    (reconnect_with_backoff 1 32
                       (log_to ERROR (''Unexpected error in watch stream: '' @ e) r2))
         | (Exhausted, r2) \<Rightarrow>
            (case ending of
               Stream_finished \<Rightarrow> watch_loop start_msg event_callback rest r2
             | Api_exception e \<Rightarrow>
                 if stop_requested r2 then (Returned, r2)
                 else watch_loop start_msg event_callback rest
                        (reconnect_with_backoff 1 32 (log_to ERROR (''Watch stream error: '' @ e) r2))
             | Other_exception e \<Rightarrow>
                 if stop_requested r2 then (Returned, r2)
                 else watch_loop start_msg event_callback rest
                        (reconnect_with_backoff 1 32
                           (log_to ERROR (''Unexpected error in watch stream: '' @ e) r2)))))"

definition watch_namespace ::
  "string \<Rightarrow> ('o, 's) callback \<Rightarrow> 'o attempt list \<Rightarrow> 's watcher_run \<Rightarrow> loop_status \<times> 's watcher_run"
  where
  "watch_namespace namespace event_callback =
     watch_loop (''Starting watch for InferenceServices in namespace: '' @ namespace) event_callback"

definition watch_single ::
  "string \<Rightarrow> string \<Rightarrow> ('o, 's) callback \<Rightarrow> 'o attempt list \<Rightarrow> 's watcher_run
     \<Rightarrow> loop_status \<times> 's watcher_run" where
  "watch_single namespace name event_callback =
     watch_loop (''Starting watch for InferenceService: '' @ namespace @ ''/'' @ name) event_callback"

definition watch_events ::
  "string \<Rightarrow> string \<Rightarrow> ('o, 's) callback \<Rightarrow> 'o attempt list \<Rightarrow> 's watcher_run
     \<Rightarrow> loop_status \<times> 's watcher_run" where
  "watch_events namespace isvc_name event_callback =
     watch_loop (''Starting watch for Events in namespace: '' @ namespace) event_callback"

section \<open>Values carried by events\<close>

text \<open>
  The objects of the cluster and the envelopes built from them are JSON values. A Python
  dict keeps its keys in insertion order, so a dict is the list of its items in that
  order. A string is the list of its code points; the model covers the code points up to
  255. Floats are left out.
\<close>

datatype json =
    JNull
  | JBool bool
  | JInt int
  | JString string
  | JList "json list"
  | JDict "(string \<times> json) list"

section \<open>queue.Queue\<close>

text \<open>
  A client queue is an object with a \<open>put\<close> method; the routes create
  \<open>queue.Queue(maxsize=100)\<close>. \<open>put_error\<close> is \<open>None\<close> for such a queue; it is \<open>Some e\<close> for an
  object whose \<open>put\<close> raises \<open>e\<close>, the case the \<open>except\<close> clause of \<open>_broadcast_event\<close>
  is written for.
\<close>

record client_queue =
  items :: "json list"
  maxsize :: nat
  put_error :: "string option"

definition Queue :: "nat \<Rightarrow> client_queue" where
  "Queue n = \<lparr>items = [], maxsize = n, put_error = None\<rparr>"

definition full :: "client_queue \<Rightarrow> bool" where
  "full q = (0 < maxsize q \<and> maxsize q \<le> length (items q))"

datatype put_outcome = Put_done client_queue | Put_raises string | Put_waits

text \<open>
  \<open>Queue.put(item, block=True, timeout=None)\<close>. On a full queue: with \<open>block=False\<close> it
  raises \<open>queue.Full\<close> at once; with a timeout it raises \<open>queue.Full\<close> when the timeout has
  passed (no slot is freed by this call's own thread); with neither it waits until
  another thread takes an item, for as long as that takes.
\<close>

definition put :: "json \<Rightarrow> bool \<Rightarrow> nat option \<Rightarrow> client_queue \<Rightarrow> put_outcome" where
  "put item block timeout q =
     (case put_error q of
        Some e \<Rightarrow> Put_raises e
      | None \<Rightarrow>
          if \<not> full q then Put_done (q\<lparr>items := items q @ [item]\<rparr>)
          else if \<not> block then Put_raises ''Full''
          else (case timeout of None \<Rightarrow> Put_waits | Some t \<Rightarrow> Put_raises ''Full''))"

text \<open>
  \<open>Queue.get(timeout=1)\<close>: the oldest item and the rest, or \<open>None\<close> when the queue is
  still empty after the timeout (\<open>queue.Empty\<close>).
\<close>

definition get :: "client_queue \<Rightarrow> (json \<times> client_queue) option" where
  "get q = (case items q of [] \<Rightarrow> None | x # xs \<Rightarrow> Some (x, q\<lparr>items := xs\<rparr>))"

section \<open>manager.py: SSEConnectionManager\<close>

text \<open>
  Queues and watchers are objects; the manager's tables hold references to them. A queue
  is referred to by a number and \<open>queue_objs\<close> is the store of the queue objects. The
  watchers are numbered in the order of their construction: \<open>constructed\<close> counts the
  watcher objects made so far, \<open>threads\<close> lists the threads started (the watcher and the
  method and arguments it runs), and \<open>stop_flags\<close> holds the watchers whose \<open>stop()\<close> has
  been called. \<open>locks\<close> is the key set of the \<open>defaultdict\<close> of locks. Every method body is
  one critical section of its key's lock, so concurrent calls for one key take effect one
  after the other, in some order.
\<close>

datatype target =
    Watch_namespace string
  | Watch_single string string
  | Watch_events string string

record manager =
  namespace_watchers :: "string \<rightharpoonup> nat"
  single_watchers :: "string \<rightharpoonup> nat"
  event_watchers :: "string \<rightharpoonup> nat"
  client_queues :: "string \<rightharpoonup> nat list"
  locks :: "string set"
  queue_objs :: "nat \<Rightarrow> client_queue"
  constructed :: nat
  threads :: "(nat \<times> target) list"
  stop_flags :: "nat set"
  mlog :: "log_entry list"

text \<open>\<open>__init__\<close>, given the store of queue objects.\<close>

definition init_manager :: "(nat \<Rightarrow> client_queue) \<Rightarrow> manager" where
  "init_manager store =
     \<lparr>namespace_watchers = Map.empty, single_watchers = Map.empty, event_watchers = Map.empty,
      client_queues = Map.empty, locks = {}, queue_objs = store, constructed = 0,
      threads = [], stop_flags = {}, mlog = []\<rparr>"

definition mlog_to :: "level \<Rightarrow> string \<Rightarrow> manager \<Rightarrow> manager" where
  "mlog_to lvl msg m = m\<lparr>mlog := mlog m @ [(lvl, msg)]\<rparr>"

text \<open>\<open>self._locks[watch_key]\<close>: the \<open>defaultdict\<close> makes the lock of a new key.\<close>

definition lock_of :: "string \<Rightarrow> manager \<Rightarrow> manager" where
  "lock_of watch_key m = m\<lparr>locks := insert watch_key (locks m)\<rparr>"

text \<open>
  \<open>self._client_queues[watch_key]\<close>: reading a missing key of the \<open>defaultdict(list)\<close>
  stores an empty list under it.
\<close>

definition touch_queues :: "string \<Rightarrow> manager \<Rightarrow> manager" where
  "touch_queues watch_key m =
     (case client_queues m watch_key of
        None \<Rightarrow> m\<lparr>client_queues := (client_queues m)(watch_key \<mapsto> [])\<rparr>
      | Some qs \<Rightarrow> m)"

definition queues_of :: "string \<Rightarrow> manager \<Rightarrow> nat list" where
  "queues_of watch_key m = (case client_queues m watch_key of None \<Rightarrow> [] | Some qs \<Rightarrow> qs)"

definition set_queues :: "string \<Rightarrow> nat list \<Rightarrow> manager \<Rightarrow> manager" where
  "set_queues watch_key qs m = m\<lparr>client_queues := (client_queues m)(watch_key \<mapsto> qs)\<rparr>"

definition register_namespace_watch :: "string \<Rightarrow> nat \<Rightarrow> manager \<Rightarrow> manager" where
  "register_namespace_watch namespace client_queue m =
     (let watch_key = ''ns:'' @ namespace;
          m = touch_queues watch_key (lock_of watch_key m);
          m = set_queues watch_key (queues_of watch_key m @ [client_queue]) m
      in if watch_key \<notin> dom (namespace_watchers m)
         then (let watcher = constructed m;
                   m = m\<lparr>constructed := Suc watcher\<rparr>;
                   m = m\<lparr>namespace_watchers := (namespace_watchers m)(watch_key \<mapsto> watcher)\<rparr>;
                   m = m\<lparr>threads := threads m @ [(watcher, Watch_namespace namespace)]\<rparr>
               in mlog_to INFO (''Started namespace watcher for: '' @ namespace) m)
         else m)"

definition register_single_watch :: "string \<Rightarrow> string \<Rightarrow> nat \<Rightarrow> manager \<Rightarrow> manager" where
  "register_single_watch namespace name client_queue m =
     (let watch_key = ''isvc:'' @ namespace @ ''/'' @ name;
          m = touch_queues watch_key (lock_of watch_key m);
          m = set_queues watch_key (queues_of watch_key m @ [client_queue]) m
      in if watch_key \<notin> dom (single_watchers m)
         then (let watcher = constructed m;
                   m = m\<lparr>constructed := Suc watcher\<rparr>;
                   m = m\<lparr>single_watchers := (single_watchers m)(watch_key \<mapsto> watcher)\<rparr>;
                   m = m\<lparr>threads := threads m @ [(watcher, Watch_single namespace name)]\<rparr>
               in mlog_to INFO (''Started single watcher for: '' @ namespace @ ''/'' @ name) m)
         else m)"

definition register_event_watch :: "string \<Rightarrow> string \<Rightarrow> nat \<Rightarrow> manager \<Rightarrow> manager" where
  "register_event_watch namespace isvc_name client_queue m =
     (let watch_key = ''events:'' @ namespace @ ''/'' @ isvc_name;
          m = touch_queues watch_key (lock_of watch_key m);
          m = set_queues watch_key (queues_of watch_key m @ [client_queue]) m
      in if watch_key \<notin> dom (event_watchers m)
         then (let watcher = constructed m;
                   m = m\<lparr>constructed := Suc watcher\<rparr>;
                   m = m\<lparr>event_watchers := (event_watchers m)(watch_key \<mapsto> watcher)\<rparr>;
                   m = m\<lparr>threads := threads m @ [(watcher, Watch_events namespace isvc_name)]\<rparr>
               in mlog_to INFO (''Started event watcher for: '' @ namespace @ ''/'' @ isvc_name) m)
         else m)"

text \<open>\<open>str.startswith\<close>.\<close>

definition startswith :: "string \<Rightarrow> string \<Rightarrow> bool" where
  "startswith s p = (take (length p) s = p)"

text \<open>
  \<open>_stop_watcher\<close>: the table is chosen by the prefix of the key, the entry is popped
  (\<open>pop(watch_key, None)\<close>), and a watcher that was there is stopped.
\<close>

definition stop_watcher :: "string \<Rightarrow> manager \<Rightarrow> manager" where
  "stop_watcher watch_key m =
     (let (watcher, m) =
        (if startswith watch_key ''ns:''
         then (namespace_watchers m watch_key,
               m\<lparr>namespace_watchers := (namespace_watchers m)(watch_key := None)\<rparr>)
         else if startswith watch_key ''isvc:''
         then (single_watchers m watch_key,
               m\<lparr>single_watchers := (single_watchers m)(watch_key := None)\<rparr>)
         else if startswith watch_key ''events:''
         then (event_watchers m watch_key,
               m\<lparr>event_watchers := (event_watchers m)(watch_key := None)\<rparr>)
         else (None, m))
      in case watcher of
           Some w \<Rightarrow> mlog_to INFO (''Stopped watcher: '' @ watch_key) (m\<lparr>stop_flags := insert w (stop_flags m)\<rparr>)
         | None \<Rightarrow> m)"

text \<open>
  \<open>list.remove(x)\<close>: the list without the first occurrence of \<open>x\<close>; \<open>ValueError\<close> when
  \<open>x\<close> is not in the list.
\<close>

definition list_remove :: "nat \<Rightarrow> nat list \<Rightarrow> string + nat list" where
  "list_remove x xs =
     (if x \<in> set xs then Inr (remove1 x xs) else Inl ''list.remove(x): x not in list'')"

text \<open>
  \<open>unregister_client\<close>. \<open>Inl\<close> is an exception that leaves the method (the lock is released
  by the \<open>with\<close> statement).
\<close>

definition unregister_client :: "string \<Rightarrow> nat \<Rightarrow> manager \<Rightarrow> string + manager" where
  "unregister_client watch_key client_queue m =
     (let m = touch_queues watch_key (lock_of watch_key m);
          removed =
            (if client_queue \<in> set (queues_of watch_key m)
             then (case list_remove client_queue (queues_of watch_key m) of
                     Inl e \<Rightarrow> Inl e
                   | Inr qs \<Rightarrow> Inr (set_queues watch_key qs m))
             else Inr m)
      in case removed of
           Inl e \<Rightarrow> Inl e
         | Inr m \<Rightarrow> Inr (if length (queues_of watch_key m) = 0 then stop_watcher watch_key m else m))"

text \<open>
  \<open>_broadcast_event\<close>. The call either returns, or waits inside \<open>queue.put\<close> on one of the
  queues with the lock of the key held, or raises. The first loop tries every queue of
  the key in order and collects the ones whose \<open>put\<close> raised.
\<close>

datatype broadcast_result =
    Returns manager
  | Waits_in_put nat manager
  | Raises string manager

fun deliver :: "json \<Rightarrow> nat list \<Rightarrow> nat list \<Rightarrow> manager \<Rightarrow> (nat list \<times> manager) + (nat \<times> manager)"
  where
  "deliver event_data [] dead_queues m = Inl (dead_queues, m)"
| "deliver event_data (queue # rest) dead_queues m =
     (case put event_data True None (queue_objs m queue) of
        Put_done q' \<Rightarrow>
          deliver event_data rest dead_queues (m\<lparr>queue_objs := (queue_objs m)(queue := q')\<rparr>)
      | Put_raises e \<Rightarrow>
          deliver event_data rest (dead_queues @ [queue])
            (mlog_to ERROR (''Error sending event to client: '' @ e) m)
      | Put_waits \<Rightarrow> Inr (queue, m))"

text \<open>
  The second loop: \<open>list.remove\<close> takes out the first occurrence and raises \<open>ValueError\<close>
  when there is none.
\<close>

fun remove_dead :: "string \<Rightarrow> nat list \<Rightarrow> manager \<Rightarrow> broadcast_result" where
  "remove_dead watch_key [] m = Returns m"
| "remove_dead watch_key (queue # rest) m =
     (if queue \<in> set (queues_of watch_key m)
      then remove_dead watch_key rest (set_queues watch_key (remove1 queue (queues_of watch_key m)) m)
      else Raises ''ValueError'' m)"

definition broadcast_event :: "string \<Rightarrow> string \<Rightarrow> json \<Rightarrow> manager \<Rightarrow> broadcast_result" where
  "broadcast_event watch_key event_type obj m =
     (let event_data = JDict [(''type'', JString event_type), (''object'', obj)];
          m = touch_queues watch_key (lock_of watch_key m)
      in case deliver event_data (queues_of watch_key m) [] m of
           Inl (dead_queues, m) \<Rightarrow> remove_dead watch_key dead_queues m
         | Inr (queue, m) \<Rightarrow> Waits_in_put queue m)"

section \<open>routes.py: the wire format\<close>

text \<open>
  \<open>str.lower\<close> on code points up to 255: the letters A to Z, and the upper-case letters
  of the Latin-1 block (192 to 222 without the multiplication sign 215), move up by 32.
\<close>

definition lower_char :: "char \<Rightarrow> char" where
  "lower_char c =
     (let n = (of_char c :: nat)
      in if (65 \<le> n \<and> n \<le> 90) \<or> (192 \<le> n \<and> n \<le> 222 \<and> n \<noteq> 215) then char_of (n + 32) else c)"

definition lower :: "string \<Rightarrow> string" where
  "lower s = map lower_char s"

text \<open>
  \<open>json.dumps\<close> with its defaults: \<open>ensure_ascii=True\<close>, a comma and a space between
  items, a colon and a space after a key. In a string the quote, the backslash and the
  control characters with a short form are escaped by a backslash, every other code point
  outside the printable ASCII range as \<open>\u00XX\<close> with lower-case hexadecimal digits.
\<close>

definition hex_digit :: "nat \<Rightarrow> char" where
  "hex_digit d = (if d < 10 then char_of (48 + d) else char_of (87 + d))"

definition escape_char :: "char \<Rightarrow> string" where
  "escape_char c =
     (let n = (of_char c :: nat)
      in if n = 0x22 then [CHR 0x5C, CHR 0x22]
         else if n = 0x5C then [CHR 0x5C, CHR 0x5C]
         else if n = 0x0A then [CHR 0x5C, CHR ''n'']
         else if n = 0x0D then [CHR 0x5C, CHR ''r'']
         else if n = 0x09 then [CHR 0x5C, CHR ''t'']
         else if n = 0x08 then [CHR 0x5C, CHR ''b'']
         else if n = 0x0C then [CHR 0x5C, CHR ''f'']
         else if 32 \<le> n \<and> n \<le> 126 then [c]
         else [CHR 0x5C, CHR ''u'', CHR ''0'', CHR ''0'', hex_digit (n div 16), hex_digit (n mod 16)])"

definition dumps_str :: "string \<Rightarrow> string" where
  "dumps_str s = [CHR 0x22] @ concat (map escape_char s) @ [CHR 0x22]"

definition str_int :: "int \<Rightarrow> string" where
  "str_int i = (if i < 0 then ''-'' @ str_nat (nat (- i)) else str_nat (nat i))"

fun join :: "string \<Rightarrow> string list \<Rightarrow> string" where
  "join sep [] = []"
| "join sep [x] = x"
| "join sep (x # y # ys) = x @ sep @ join sep (y # ys)"

fun json_dumps :: "json \<Rightarrow> string" where
  "json_dumps JNull = ''null''"
| "json_dumps (JBool b) = (if b then ''true'' else ''false'')"
| "json_dumps (JInt i) = str_int i"
| "json_dumps (JString s) = dumps_str s"
| "json_dumps (JList xs) = ''['' @ join '', '' (map json_dumps xs) @ '']''"
| "json_dumps (JDict kvs) =
     ''{'' @ join '', '' (map (\<lambda>(k, v). dumps_str k @ '': '' @ json_dumps v) kvs) @ ''}''"

definition format_sse_message :: "string \<Rightarrow> json \<Rightarrow> string" where
  "format_sse_message event_type data =
     ''event: '' @ lower event_type @ [CHR 0x0A] @ ''data: '' @ json_dumps data @ [CHR 0x0A, CHR 0x0A]"

definition send_heartbeat :: string where
  "send_heartbeat = '': heartbeat'' @ [CHR 0x0A, CHR 0x0A]"

section \<open>routes.py: the streaming sessions\<close>

text \<open>
  A session is the generator \<open>event_stream\<close> of one request. Its state is the shared
  manager, the clock that \<open>time.time()\<close> reads, \<open>last_heartbeat\<close>, and the chunks yielded so
  far, each with the time of its yield. Time is counted in the unit of the timeouts
  (seconds). Only waiting takes time: \<open>client_queue.get(timeout=1)\<close> on a queue that stays
  empty returns after 1 time unit, and on a queue that holds an item it returns at once.
\<close>

record stream_state =
  mgr :: manager
  now :: int
  last_heartbeat :: int
  emitted :: "(int \<times> string) list"

definition yield :: "string \<Rightarrow> stream_state \<Rightarrow> stream_state" where
  "yield chunk st = st\<lparr>emitted := emitted st @ [(now st, chunk)]\<rparr>"

definition heartbeat_interval :: int where
  "heartbeat_interval = 30"

text \<open>
  One turn of the \<open>while True\<close> loop, the same in the three routes. \<open>Inl\<close> is an exception
  that leaves the loop for the \<open>except Exception\<close> clause of the generator.
\<close>

definition loop_iteration :: "nat \<Rightarrow> stream_state \<Rightarrow> (string \<times> stream_state) + stream_state" where
  "loop_iteration client_queue st =
     (case get (queue_objs (mgr st) client_queue) of
        Some (event_data, q') \<Rightarrow>
          (let st = st\<lparr>mgr := (mgr st)\<lparr>queue_objs := (queue_objs (mgr st))(client_queue := q')\<rparr>\<rparr>
           in case event_data of
                JDict kvs \<Rightarrow>
                  (case map_of kvs ''type'' of
                     Some (JString event_type) \<Rightarrow>
                       (let st = yield (format_sse_message (lower event_type) event_data) st
                        in Inr (st\<lparr>last_heartbeat := now st\<rparr>))
                   | Some other \<Rightarrow> Inl (''AttributeError'', st)
                   | None \<Rightarrow> Inl (''KeyError'', st))
              | other \<Rightarrow> Inl (''TypeError'', st))
      | None \<Rightarrow>
          (let st = st\<lparr>now := now st + 1\<rparr>
           in if now st - last_heartbeat st > heartbeat_interval
              then (let st = yield send_heartbeat st in Inr (st\<lparr>last_heartbeat := now st\<rparr>))
              else Inr st))"

text \<open>
  The \<open>except Exception\<close> clause: log, unregister, then yield the error event. \<open>Inl\<close> is an
  exception raised inside the clause, which leaves the generator.
\<close>

definition on_exception :: "string \<Rightarrow> nat \<Rightarrow> string \<Rightarrow> stream_state \<Rightarrow> string + stream_state" where
  "on_exception watch_key client_queue e st =
     (let st = st\<lparr>mgr := mlog_to ERROR (''Error in SSE stream: '' @ e) (mgr st)\<rparr>
      in case unregister_client watch_key client_queue (mgr st) of
           Inl e' \<Rightarrow> Inl e'
         | Inr m \<Rightarrow>
             Inr (yield (format_sse_message ''error''
                           (JDict [(''type'', JString ''ERROR''), (''message'', JString e)]))
                        (st\<lparr>mgr := m\<rparr>)))"

text \<open>
  The \<open>except GeneratorExit\<close> clause, entered when the client has gone; \<open>what\<close> is the text
  the route logs.
\<close>

definition on_generator_exit :: "string \<Rightarrow> nat \<Rightarrow> string \<Rightarrow> stream_state \<Rightarrow> string + stream_state" where
  "on_generator_exit watch_key client_queue what st =
     (let st = st\<lparr>mgr := mlog_to INFO what (mgr st)\<rparr>
      in case unregister_client watch_key client_queue (mgr st) of
           Inl e' \<Rightarrow> Inl e'
         | Inr m \<Rightarrow> Inr (st\<lparr>mgr := m\<rparr>))"

text \<open>
  The generator after its \<open>except Exception\<close> clause has run: closed, unless the clause
  itself raised.
\<close>

definition closed :: "string + stream_state \<Rightarrow> string + bool \<times> stream_state" where
  "closed r = (case r of Inl e \<Rightarrow> Inl e | Inr st \<Rightarrow> Inr (False, st))"


text \<open>
  The head of \<open>stream_inference_services.event_stream\<close>, up to the loop. \<open>snapshot\<close> is what
  \<open>api.list_custom_rsrc\<close> does: it raises or returns the listing. The result says whether
  the generator has entered its loop.
\<close>

definition stream_inference_services ::
  "string \<Rightarrow> nat \<Rightarrow> string + json \<Rightarrow> stream_state \<Rightarrow> string + bool \<times> stream_state" where
  "stream_inference_services namespace client_queue snapshot st =
     (let watch_key = ''ns:'' @ namespace
      in case snapshot of
           Inl e \<Rightarrow> closed (on_exception watch_key client_queue e st)
         | Inr initial_data \<Rightarrow>
             (case initial_data of
                JDict kvs \<Rightarrow>
                  (case map_of kvs ''items'' of
                     None \<Rightarrow>
                       closed (on_exception watch_key client_queue ([CHR 0x27] @ ''items'' @ [CHR 0x27]) st)
                   | Some its \<Rightarrow>
                       (let st = yield (format_sse_message ''initial''
                                          (JDict [(''type'', JString ''INITIAL''), (''items'', its)])) st;
                            st = st\<lparr>mgr := register_namespace_watch namespace client_queue (mgr st)\<rparr>
                        in Inr (True, st\<lparr>last_heartbeat := now st\<rparr>)))
              | other \<Rightarrow> closed (on_exception watch_key client_queue ''TypeError'' st)))"

section \<open>get.py: the visible namespaces\<close>

text \<open>
  \<open>str.isspace\<close> on code points up to 255, \<open>str.strip()\<close> and \<open>str.split(sep)\<close> for a
  separator of one character.
\<close>

definition isspace :: "char \<Rightarrow> bool" where
  "isspace c =
     (let n = (of_char c :: nat)
      in (9 \<le> n \<and> n \<le> 13) \<or> (28 \<le> n \<and> n \<le> 32) \<or> n = 133 \<or> n = 160)"

definition strip :: "string \<Rightarrow> string" where
  "strip s = rev (dropWhile isspace (rev (dropWhile isspace s)))"

fun str_split :: "char \<Rightarrow> string \<Rightarrow> string list" where
  "str_split sep [] = [[]]"
| "str_split sep (c # cs) =
     (if c = sep then [] # str_split sep cs
      else (case str_split sep cs of
              [] \<Rightarrow> [[c]]
            | w # ws \<Rightarrow> (c # w) # ws))"

text \<open>
  The response of the route (\<open>api.success_response(key, value)\<close>, or
  \<open>api.failed_response(key, message)\<close> with the status code) and the calls of the logger:
  level, format string and arguments, not yet formatted.
\<close>

datatype response = Success_response string "string list" | Failed_response string string nat

datatype log_arg = Arg_str string | Arg_list "string list"

type_synonym log_call = "level \<times> string \<times> log_arg list"

text \<open>
  \<open>get_namespaces\<close>. \<open>listing\<close> is what \<open>api.list_namespaces()\<close> does: it raises, or returns
  the namespaces, of which the route reads the names. \<open>env\<close> is the value of
  \<open>ALLOWED_NAMESPACES\<close> in the environment, if set.
\<close>

definition get_namespaces :: "string + string list \<Rightarrow> string option \<Rightarrow> response \<times> log_call list" where
  "get_namespaces listing env =
     (case listing of
        Inl e \<Rightarrow>
          (Failed_response ''message'' ''Failed to retrieve namespaces'' 500,
           [(ERROR, ''Error retrieving namespaces: %s'', [Arg_str e])])
      | Inr all_namespace_names \<Rightarrow>
          (let allowed_namespaces_env = strip (case env of None \<Rightarrow> [] | Some v \<Rightarrow> v)
           in if allowed_namespaces_env = [] then (Success_response ''namespaces'' all_namespace_names, [])
              else
                (let allowed_namespaces =
                       map strip (filter (\<lambda>ns. strip ns \<noteq> []) (str_split (CHR '','') allowed_namespaces_env))
                 in if allowed_namespaces = [] then (Success_response ''namespaces'' all_namespace_names, [])
                    else
                      (let valid_allowed_namespaces =
                             filter (\<lambda>ns. ns \<in> set all_namespace_names) allowed_namespaces
                       in if valid_allowed_namespaces = []
                          then (Success_response ''namespaces'' all_namespace_names,
                                [(WARNING,
                                  ''None of the ALLOWED_NAMESPACES exist in cluster. Falling back to all namespaces.'',
                                  [])])
                          else
                            (let invalid_namespaces =
                                   filter (\<lambda>ns. ns \<notin> set all_namespace_names) allowed_namespaces
                             in (Success_response ''namespaces'' valid_allowed_namespaces,
                                 if invalid_namespaces \<noteq> []
                                 then [(WARNING, ''Invalid namespaces in ALLOWED_NAMESPACES (ignored): %s'',
                                        [Arg_list invalid_namespaces])]
                                 else []))))))"

section \<open>Vocabulary of the properties\<close>

text \<open>What a call of \<open>_broadcast_event\<close> has reached, and whether it has returned.\<close>

definition state_of :: "broadcast_result \<Rightarrow> manager" where
  "state_of r = (case r of Returns m \<Rightarrow> m | Waits_in_put q m \<Rightarrow> m | Raises e m \<Rightarrow> m)"

definition returns :: "broadcast_result \<Rightarrow> bool" where
  "returns r = (case r of Returns m \<Rightarrow> True | Waits_in_put q m \<Rightarrow> False | Raises e m \<Rightarrow> False)"

text \<open>
  A queue whose \<open>put\<close> raises; the entry logged for it; a queue that can take \<open>n\<close> more
  items without waiting; and the store after every queue of the list that does not raise
  has been given the envelope once for each time it is in the list.
\<close>

definition raising :: "manager \<Rightarrow> nat \<Rightarrow> bool" where
  "raising m q = (put_error (queue_objs m q) \<noteq> None)"

definition send_error :: "manager \<Rightarrow> nat \<Rightarrow> log_entry" where
  "send_error m q =
     (ERROR, ''Error sending event to client: '' @ (case put_error (queue_objs m q) of None \<Rightarrow> [] | Some e \<Rightarrow> e))"

definition has_room :: "nat \<Rightarrow> client_queue \<Rightarrow> bool" where
  "has_room n q = (maxsize q = 0 \<or> length (items q) + n \<le> maxsize q)"

definition delivered :: "json \<Rightarrow> nat list \<Rightarrow> manager \<Rightarrow> nat \<Rightarrow> client_queue" where
  "delivered event_data qs m q =
     (if raising m q then queue_objs m q
      else (queue_objs m q)\<lparr>items := items (queue_objs m q) @ replicate (count_list qs q) event_data\<rparr>)"

text \<open>
  A store for examples: queue 0 is an object whose \<open>put\<close> raises, queue 1 is a
  \<open>Queue(maxsize=100)\<close> that holds 100 items, every other queue is a new \<open>Queue(maxsize=100)\<close>.
\<close>

definition example_store :: "nat \<Rightarrow> client_queue" where
  "example_store q =
     (if q = 0 then \<lparr>items = [], maxsize = 100, put_error = Some ''BrokenPipeError''\<rparr>
      else if q = 1 then \<lparr>items = replicate 100 JNull, maxsize = 100, put_error = None\<rparr>
      else Queue 100)"

text \<open>
  The key a thread's target stands for, and registration by target: the three
  \<open>register_*\<close> methods under one name.
\<close>

fun key_of :: "target \<Rightarrow> string" where
  "key_of (Watch_namespace namespace) = ''ns:'' @ namespace"
| "key_of (Watch_single namespace name) = ''isvc:'' @ namespace @ ''/'' @ name"
| "key_of (Watch_events namespace isvc_name) = ''events:'' @ namespace @ ''/'' @ isvc_name"

fun register :: "target \<Rightarrow> nat \<Rightarrow> manager \<Rightarrow> manager" where
  "register (Watch_namespace namespace) client_queue m = register_namespace_watch namespace client_queue m"
| "register (Watch_single namespace name) client_queue m = register_single_watch namespace name client_queue m"
| "register (Watch_events namespace isvc_name) client_queue m =
     register_event_watch namespace isvc_name client_queue m"

text \<open>
  The watcher stored for a key: the entry of the key in the table that \<open>_stop_watcher\<close>
  selects for it.
\<close>

definition watcher_for :: "string \<Rightarrow> manager \<Rightarrow> nat option" where
  "watcher_for watch_key m =
     (if startswith watch_key ''ns:'' then namespace_watchers m watch_key
      else if startswith watch_key ''isvc:'' then single_watchers m watch_key
      else if startswith watch_key ''events:'' then event_watchers m watch_key
      else None)"

text \<open>
  The live watchers of a key: the watchers whose thread was started for the key and
  whose \<open>stop()\<close> has not been called, in the order of their start.
\<close>

definition live_watchers :: "string \<Rightarrow> manager \<Rightarrow> nat list" where
  "live_watchers watch_key m =
     map fst (filter (\<lambda>(w, t). key_of t = watch_key \<and> w \<notin> stop_flags m) (threads m))"

text \<open>
  The manager after a call of \<open>unregister_client\<close>: the manager the call returns, or the
  manager as it was when the call raises.
\<close>

definition after_unregister :: "string \<Rightarrow> nat \<Rightarrow> manager \<Rightarrow> manager" where
  "after_unregister watch_key client_queue m =
     (case unregister_client watch_key client_queue m of Inl e \<Rightarrow> m | Inr m' \<Rightarrow> m')"

text \<open>
  Calls of the manager's methods, each one critical section, and a run of such calls one
  after the other: an interleaving of the threads that make them. A broadcast that waits
  in \<open>put\<close> contributes the state it has reached.
\<close>

datatype op = Register target nat | Unregister string nat | Broadcast string string json

fun apply_op :: "op \<Rightarrow> manager \<Rightarrow> manager" where
  "apply_op (Register t client_queue) m = register t client_queue m"
| "apply_op (Unregister watch_key client_queue) m = after_unregister watch_key client_queue m"
| "apply_op (Broadcast watch_key event_type obj) m = state_of (broadcast_event watch_key event_type obj m)"

definition run :: "op list \<Rightarrow> manager \<Rightarrow> manager" where
  "run ops m = fold apply_op ops m"

fun is_register :: "op \<Rightarrow> bool" where
  "is_register (Register t client_queue) = True"
| "is_register (Unregister watch_key client_queue) = False"
| "is_register (Broadcast watch_key event_type obj) = False"

text \<open>
  The part of the manager that concerns watchers, and the well-formedness of a manager:
  every thread has its own watcher, the watchers of the threads and of the stop flags have
  been constructed, every table holds keys of its own prefix only, and the live watchers
  of a key are the watcher stored for it, if there is one, and none otherwise.
\<close>

definition watcher_part ::
  "manager \<Rightarrow> (string \<rightharpoonup> nat) \<times> (string \<rightharpoonup> nat) \<times> (string \<rightharpoonup> nat) \<times> nat \<times> (nat \<times> target) list \<times> nat set"
  where
  "watcher_part m =
     (namespace_watchers m, single_watchers m, event_watchers m, constructed m, threads m, stop_flags m)"

definition well_formed :: "manager \<Rightarrow> bool" where
  "well_formed m =
     (distinct (map fst (threads m))
      \<and> (\<forall>w \<in> fst ` set (threads m). w < constructed m)
      \<and> (\<forall>w \<in> stop_flags m. w < constructed m)
      \<and> (\<forall>k. namespace_watchers m k \<noteq> None \<longrightarrow> startswith k ''ns:'')
      \<and> (\<forall>k. single_watchers m k \<noteq> None \<longrightarrow> startswith k ''isvc:'')
      \<and> (\<forall>k. event_watchers m k \<noteq> None \<longrightarrow> startswith k ''events:'')
      \<and> (\<forall>k. live_watchers k m = (case watcher_for k m of None \<Rightarrow> [] | Some w \<Rightarrow> [w])))"

text \<open>
  A session for examples: queue 2 registered for the namespace \<open>team-a\<close>, nothing in the
  queue, the clock at 0 and the last emission at 0.
\<close>

definition idle_session :: stream_state where
  "idle_session =
     \<lparr>mgr = register_namespace_watch ''team-a'' 2 (init_manager example_store),
      now = 0, last_heartbeat = 0, emitted = []\<rparr>"

text \<open>
  The callback called on every event of a list in turn, whatever the earlier calls did:
  the exceptions raised, in their order, and the state after the last call. And a run of
  the watcher after as many calls, each exception logged.
\<close>

fun callback_run :: "('o, 's) callback \<Rightarrow> (string \<times> 'o) list \<Rightarrow> 's \<Rightarrow> string list \<times> 's" where
  "callback_run cb [] s = ([], s)"
| "callback_run cb ((event_type, obj) # evs) s =
     (case cb event_type obj s of
        (None, s') \<Rightarrow> callback_run cb evs s'
      | (Some e, s') \<Rightarrow> (case callback_run cb evs s' of (es, s'') \<Rightarrow> (e # es, s'')))"

definition after_events :: "('o, 's) callback \<Rightarrow> (string \<times> 'o) list \<Rightarrow> 's watcher_run \<Rightarrow> 's watcher_run" where
  "after_events cb evs r =
     r\<lparr>cb_state := snd (callback_run cb evs (cb_state r)),
       wlog := wlog r @ map (\<lambda>e. (ERROR, ''Error in event callback: '' @ e))
                            (fst (callback_run cb evs (cb_state r)))\<rparr>"

definition events :: "(string \<times> 'o) list \<Rightarrow> 'o stream_item list" where
  "events evs = map (\<lambda>(event_type, obj). Event (Some event_type) (Some obj)) evs"

text \<open>
  A callback for examples: it raises on an event of type \<open>BOOM\<close> and broadcasts every
  other event to the key of the namespace \<open>team-a\<close>, as the callback that
  \<open>register_namespace_watch\<close> builds does.
\<close>

definition example_callback :: "(json, manager) callback" where
  "example_callback event_type obj m =
     (if event_type = ''BOOM'' then (Some ''boom'', m)
      else (None, state_of (broadcast_event ''ns:team-a'' event_type obj m)))"

text \<open>The allow-list that \<open>get_namespaces\<close> reads from the value of the variable.\<close>

definition allowed_list :: "string \<Rightarrow> string list" where
  "allowed_list env = map strip (filter (\<lambda>ns. strip ns \<noteq> []) (str_split (CHR '','') (strip env)))"

section \<open>Properties of the watch loops\<close>

lemma reconnect_with_backoff_running:
  "\<not> stop_requested r \<Longrightarrow> d \<le> m \<Longrightarrow>
   reconnect_with_backoff d m r =
     sleep d (log_to INFO (''Reconnecting in '' @ str_nat d @ '' seconds...'') r)"
  by (simp add: reconnect_with_backoff_def Let_def)

lemma stop_requested_log_to [simp]: "stop_requested (log_to lvl msg r) = stop_requested r"
  by (simp add: log_to_def)

lemma slept_log_to [simp]: "slept (log_to lvl msg r) = slept r"
  by (simp add: log_to_def)

lemma stop_requested_sleep [simp]: "stop_requested (sleep d r) = stop_requested r"
  by (simp add: sleep_def)

lemma slept_sleep [simp]: "slept (sleep d r) = slept r @ [d]"
  by (simp add: sleep_def)

lemma failed_connects_sleep_one:
  "\<not> stop_requested r \<Longrightarrow>
   slept (snd (watch_loop msg cb (replicate k ([], Api_exception e)) r)) = slept r @ replicate k 1"
proof (induction k arbitrary: r)
  case 0
  then show ?case by simp
next
  case (Suc k)
  let ?r' = "reconnect_with_backoff 1 32 (log_to ERROR (''Watch stream error: '' @ e) (log_to INFO msg r))"
  have running: "\<not> stop_requested ?r'"
    using Suc.prems by (simp add: reconnect_with_backoff_running)
  have "slept ?r' = slept r @ [1]"
    using Suc.prems by (simp add: reconnect_with_backoff_running)
  with Suc.IH [OF running] Suc.prems show ?case
    by (simp add: replicate_app_Cons_same)
qed

text \<open>
  Claim C1. The claim: after k consecutive failed reconnect attempts the delays slept are
  1, 2, 4, 8, 16, 32, 32, ... What the code does: every call of
  \<open>_reconnect_with_backoff\<close> starts again from \<open>initial_delay = 1\<close> and leaves its loop after
  one sleep, so k consecutive failures of any of the three watch loops sleep k times for
  1 time unit. The doubling and the cap of 32 are never reached.
\<close>

theorem backoff_delays_all_one:
  "slept (snd (watch_namespace ns cb (replicate k ([], Api_exception e)) (new_watcher s)))
     = replicate k 1
   \<and> slept (snd (watch_single ns name cb (replicate k ([], Api_exception e)) (new_watcher s)))
     = replicate k 1
   \<and> slept (snd (watch_events ns name cb (replicate k ([], Api_exception e)) (new_watcher s)))
     = replicate k 1"
proof -
  have "\<not> stop_requested (new_watcher s)" and "slept (new_watcher s) = []"
    by (simp_all add: new_watcher_def)
  then show ?thesis
    by (simp add: watch_namespace_def watch_single_def watch_events_def failed_connects_sleep_one)
qed

section \<open>Properties of the manager\<close>

lemma lock_of_fields [simp]:
  "namespace_watchers (lock_of k m) = namespace_watchers m"
  "single_watchers (lock_of k m) = single_watchers m"
  "event_watchers (lock_of k m) = event_watchers m"
  "client_queues (lock_of k m) = client_queues m"
  "queue_objs (lock_of k m) = queue_objs m"
  "constructed (lock_of k m) = constructed m"
  "threads (lock_of k m) = threads m"
  "stop_flags (lock_of k m) = stop_flags m"
  "mlog (lock_of k m) = mlog m"
  "locks (lock_of k m) = insert k (locks m)"
  by (simp_all add: lock_of_def)

lemma touch_queues_fields [simp]:
  "namespace_watchers (touch_queues k m) = namespace_watchers m"
  "single_watchers (touch_queues k m) = single_watchers m"
  "event_watchers (touch_queues k m) = event_watchers m"
  "queue_objs (touch_queues k m) = queue_objs m"
  "constructed (touch_queues k m) = constructed m"
  "threads (touch_queues k m) = threads m"
  "stop_flags (touch_queues k m) = stop_flags m"
  "mlog (touch_queues k m) = mlog m"
  "locks (touch_queues k m) = locks m"
  by (simp_all add: touch_queues_def split: option.split)

lemma set_queues_fields [simp]:
  "namespace_watchers (set_queues k qs m) = namespace_watchers m"
  "single_watchers (set_queues k qs m) = single_watchers m"
  "event_watchers (set_queues k qs m) = event_watchers m"
  "queue_objs (set_queues k qs m) = queue_objs m"
  "constructed (set_queues k qs m) = constructed m"
  "threads (set_queues k qs m) = threads m"
  "stop_flags (set_queues k qs m) = stop_flags m"
  "mlog (set_queues k qs m) = mlog m"
  "locks (set_queues k qs m) = locks m"
  by (simp_all add: set_queues_def)

lemma mlog_to_fields [simp]:
  "namespace_watchers (mlog_to l s m) = namespace_watchers m"
  "single_watchers (mlog_to l s m) = single_watchers m"
  "event_watchers (mlog_to l s m) = event_watchers m"
  "client_queues (mlog_to l s m) = client_queues m"
  "queue_objs (mlog_to l s m) = queue_objs m"
  "constructed (mlog_to l s m) = constructed m"
  "threads (mlog_to l s m) = threads m"
  "stop_flags (mlog_to l s m) = stop_flags m"
  "mlog (mlog_to l s m) = mlog m @ [(l, s)]"
  "locks (mlog_to l s m) = locks m"
  by (simp_all add: mlog_to_def)

lemma queues_of_simps [simp]:
  "queues_of k (lock_of k' m) = queues_of k m"
  "queues_of k (touch_queues k' m) = queues_of k m"
  "queues_of k (set_queues k' qs m) = (if k = k' then qs else queues_of k m)"
  "queues_of k (mlog_to l s m) = queues_of k m"
  by (simp_all add: queues_of_def touch_queues_def set_queues_def split: option.split)

lemma queues_of_queue_objs_update [simp]:
  "queues_of k (m\<lparr>queue_objs := f\<rparr>) = queues_of k m"
  by (simp add: queues_of_def)

lemma put_room:
  "put_error q = None \<Longrightarrow> has_room (Suc n) q \<Longrightarrow>
   put ev True None q = Put_done (q\<lparr>items := items q @ [ev]\<rparr>)"
  by (auto simp: put_def has_room_def full_def)

lemma put_raising: "put_error q = Some e \<Longrightarrow> put ev b t q = Put_raises e"
  by (simp add: put_def)

lemma deliver_all:
  "\<forall>q \<in> set qs. \<not> raising m q \<longrightarrow> has_room (count_list qs q) (queue_objs m q) \<Longrightarrow>
   deliver ev qs dead m =
     Inl (dead @ filter (raising m) qs,
          m\<lparr>queue_objs := delivered ev qs m, mlog := mlog m @ map (send_error m) (filter (raising m) qs)\<rparr>)"
proof (induction qs arbitrary: dead m)
  case Nil
  have "delivered ev [] m = queue_objs m"
    by (rule ext) (simp add: delivered_def)
  then show ?case by simp
next
  case (Cons x qs)
  show ?case
  proof (cases "put_error (queue_objs m x)")
    case (Some e)
    let ?m = "mlog_to ERROR (''Error sending event to client: '' @ e) m"
    have r: "raising ?m = raising m" "send_error ?m = send_error m"
      by (rule ext, simp add: raising_def send_error_def)+
    have d: "delivered ev qs ?m = delivered ev (x # qs) m"
      using Some by (intro ext) (auto simp: delivered_def raising_def)
    have "\<forall>q \<in> set qs. \<not> raising ?m q \<longrightarrow> has_room (count_list qs q) (queue_objs ?m q)"
    proof (intro ballI impI)
      fix q assume q: "q \<in> set qs" "\<not> raising ?m q"
      with Some have "q \<noteq> x" by (auto simp: raising_def)
      with Cons.prems q show "has_room (count_list qs q) (queue_objs ?m q)"
        by (auto simp: raising_def)
    qed
    note ih = Cons.IH [OF this, of "dead @ [x]"]
    have rx: "raising m x" and sx: "send_error m x = (ERROR, ''Error sending event to client: '' @ e)"
      using Some by (simp_all add: raising_def send_error_def)
    have step: "deliver ev (x # qs) dead m = deliver ev qs (dead @ [x]) ?m"
      using Some by (simp add: put_raising)
    show ?thesis
      unfolding step ih r d by (simp add: rx sx mlog_to_def)
  next
    case None
    let ?q = "(queue_objs m x)\<lparr>items := items (queue_objs m x) @ [ev]\<rparr>"
    let ?m = "m\<lparr>queue_objs := (queue_objs m)(x := ?q)\<rparr>"
    have room: "has_room (Suc (count_list qs x)) (queue_objs m x)"
      using Cons.prems None by (simp add: raising_def)
    have r: "raising ?m = raising m" "send_error ?m = send_error m"
      using None by (rule_tac ext, simp add: raising_def send_error_def)+
    have d: "delivered ev qs ?m = delivered ev (x # qs) m"
      using None by (intro ext) (auto simp: delivered_def raising_def replicate_app_Cons_same)
    have "\<forall>q \<in> set qs. \<not> raising ?m q \<longrightarrow> has_room (count_list qs q) (queue_objs ?m q)"
    proof (intro ballI impI)
      fix q assume q: "q \<in> set qs" "\<not> raising ?m q"
      with Cons.prems have "has_room (count_list (x # qs) q) (queue_objs m q)"
        by (auto simp: raising_def)
      then show "has_room (count_list qs q) (queue_objs ?m q)"
        by (cases "q = x") (auto simp: has_room_def)
    qed
    note ih = Cons.IH [OF this, of dead]
    have rx: "\<not> raising m x"
      using None by (simp add: raising_def)
    have step: "deliver ev (x # qs) dead m = deliver ev qs dead ?m"
      by (simp add: put_room [OF None room])
    show ?thesis
      unfolding step ih r d by (simp add: rx)
  qed
qed


lemma fold_remove1_filter:
  "\<forall>y \<in> set l0. \<not> P y \<Longrightarrow> fold remove1 (filter P xs) (l0 @ xs) = l0 @ filter (\<lambda>x. \<not> P x) xs"
proof (induction xs arbitrary: l0)
  case Nil
  then show ?case by simp
next
  case (Cons x xs)
  show ?case
  proof (cases "P x")
    case True
    with Cons.prems have "x \<notin> set l0" by auto
    then have "remove1 x (l0 @ x # xs) = l0 @ xs"
      by (simp add: remove1_append)
    with True Cons.IH [OF Cons.prems] show ?thesis by simp
  next
    case False
    with Cons.prems have "\<forall>y \<in> set (l0 @ [x]). \<not> P y" by simp
    from Cons.IH [OF this] False show ?thesis by simp
  qed
qed

lemma remove_dead_returns:
  "mset ds \<subseteq># mset (queues_of k m) \<Longrightarrow>
   \<exists>cq. remove_dead k ds m = Returns (m\<lparr>client_queues := cq\<rparr>)
        \<and> queues_of k (m\<lparr>client_queues := cq\<rparr>) = fold remove1 ds (queues_of k m)
        \<and> (\<forall>k'. k' \<noteq> k \<longrightarrow> queues_of k' (m\<lparr>client_queues := cq\<rparr>) = queues_of k' m)"
proof (induction ds arbitrary: m)
  case Nil
  have "remove_dead k [] m = Returns (m\<lparr>client_queues := client_queues m\<rparr>)" by simp
  then show ?case by (intro exI [of _ "client_queues m"]) simp
next
  case (Cons d ds)
  let ?m = "set_queues k (remove1 d (queues_of k m)) m"
  have d: "d \<in> set (queues_of k m)"
    using Cons.prems by (metis mset_subset_eq_insertD set_mset_mset mset.simps(2))
  have "mset ds \<subseteq># mset (queues_of k ?m)"
    using Cons.prems d by (simp add: insert_subset_eq_iff)
  from Cons.IH [OF this] obtain cq where
    cq: "remove_dead k ds ?m = Returns (?m\<lparr>client_queues := cq\<rparr>)"
        "queues_of k (?m\<lparr>client_queues := cq\<rparr>) = fold remove1 ds (queues_of k ?m)"
        "\<forall>k'. k' \<noteq> k \<longrightarrow> queues_of k' (?m\<lparr>client_queues := cq\<rparr>) = queues_of k' ?m"
    by blast
  have e: "?m\<lparr>client_queues := cq\<rparr> = m\<lparr>client_queues := cq\<rparr>"
    by (simp add: set_queues_def)
  show ?case
    using cq d unfolding e by (intro exI [of _ cq]) simp
qed


lemma broadcast_returns:
  assumes "\<forall>q \<in> set (queues_of k m). \<not> raising m q \<longrightarrow> has_room (count_list (queues_of k m) q) (queue_objs m q)"
  shows "\<exists>m'. broadcast_event k t obj m = Returns m'
     \<and> queues_of k m' = filter (\<lambda>q. \<not> raising m q) (queues_of k m)
     \<and> mlog m' = mlog m @ map (send_error m) (filter (raising m) (queues_of k m))
     \<and> queue_objs m' = delivered (JDict [(''type'', JString t), (''object'', obj)]) (queues_of k m) m
     \<and> (\<forall>k'. k' \<noteq> k \<longrightarrow> queues_of k' m' = queues_of k' m)
     \<and> namespace_watchers m' = namespace_watchers m
     \<and> single_watchers m' = single_watchers m
     \<and> event_watchers m' = event_watchers m
     \<and> stop_flags m' = stop_flags m
     \<and> constructed m' = constructed m
     \<and> threads m' = threads m"
proof -
  let ?ev = "JDict [(''type'', JString t), (''object'', obj)]"
  let ?m1 = "touch_queues k (lock_of k m)"
  let ?qs = "queues_of k m"
  have same: "raising ?m1 = raising m" "send_error ?m1 = send_error m" "delivered ?ev ?qs ?m1 = delivered ?ev ?qs m"
    by (rule ext, simp add: raising_def send_error_def delivered_def)+
  let ?m2 = "?m1\<lparr>queue_objs := delivered ?ev ?qs m,
                 mlog := mlog m @ map (send_error m) (filter (raising m) ?qs)\<rparr>"
  have "\<forall>q \<in> set (queues_of k ?m1). \<not> raising ?m1 q \<longrightarrow> has_room (count_list (queues_of k ?m1) q) (queue_objs ?m1 q)"
    using assms by (simp add: same)
  from deliver_all [OF this, of ?ev "[]"]
  have del: "deliver ?ev (queues_of k ?m1) [] ?m1 = Inl (filter (raising m) ?qs, ?m2)"
    by (simp add: same)
  have q2: "queues_of k ?m2 = ?qs"
    by (simp add: queues_of_def touch_queues_def split: option.split)
  have "mset (filter (raising m) ?qs) \<subseteq># mset (queues_of k ?m2)"
    unfolding q2 by simp
  from remove_dead_returns [OF this] obtain cq where
    cq: "remove_dead k (filter (raising m) ?qs) ?m2 = Returns (?m2\<lparr>client_queues := cq\<rparr>)"
        "queues_of k (?m2\<lparr>client_queues := cq\<rparr>) = fold remove1 (filter (raising m) ?qs) (queues_of k ?m2)"
        "\<forall>k'. k' \<noteq> k \<longrightarrow> queues_of k' (?m2\<lparr>client_queues := cq\<rparr>) = queues_of k' ?m2"
    by blast
  have f: "fold remove1 (filter (raising m) ?qs) ?qs = filter (\<lambda>q. \<not> raising m q) ?qs"
    using fold_remove1_filter [of "[]" "raising m" ?qs] by simp
  have other: "\<forall>k'. queues_of k' ?m2 = queues_of k' m"
    by (simp add: queues_of_def touch_queues_def split: option.split)
  have b: "broadcast_event k t obj m = Returns (?m2\<lparr>client_queues := cq\<rparr>)"
    using del cq(1) by (simp add: broadcast_event_def Let_def)
  show ?thesis
    unfolding b using cq(2,3) f q2 other by (intro exI [of _ "?m2\<lparr>client_queues := cq\<rparr>"]) simp
qed


lemma deliver_waits:
  "q \<in> set qs \<Longrightarrow> put_error (queue_objs m q) = None \<Longrightarrow> full (queue_objs m q) \<Longrightarrow>
   \<exists>q' m'. deliver ev qs dead m = Inr (q', m')
       \<and> full (queue_objs m' q') \<and> put_error (queue_objs m' q') = None
       \<and> client_queues m' = client_queues m"
proof (induction qs arbitrary: dead m)
  case Nil
  then show ?case by simp
next
  case (Cons x qs)
  show ?case
  proof (cases "put_error (queue_objs m x)")
    case (Some e)
    let ?m = "mlog_to ERROR (''Error sending event to client: '' @ e) m"
    from Some Cons.prems have "q \<in> set qs" by auto
    from Cons.IH [OF this, of ?m "dead @ [x]"] Cons.prems Some show ?thesis
      by (simp add: put_raising)
  next
    case None
    show ?thesis
    proof (cases "full (queue_objs m x)")
      case True
      with None show ?thesis by (simp add: put_def)
    next
      case False
      let ?m = "m\<lparr>queue_objs := (queue_objs m)(x := (queue_objs m x)\<lparr>items := items (queue_objs m x) @ [ev]\<rparr>)\<rparr>"
      from False Cons.prems have qx: "q \<noteq> x" "q \<in> set qs" by auto
      then have "put_error (queue_objs ?m q) = None" "full (queue_objs ?m q)"
        using Cons.prems by simp_all
      from Cons.IH [OF qx(2) this, of dead] None False show ?thesis
        by (simp add: put_def)
    qed
  qed
qed

lemma broadcast_waits:
  assumes "q \<in> set (queues_of k m)" "put_error (queue_objs m q) = None" "full (queue_objs m q)"
  shows "\<exists>q' m'. broadcast_event k t obj m = Waits_in_put q' m'
           \<and> full (queue_objs m' q') \<and> put_error (queue_objs m' q') = None
           \<and> queues_of k m' = queues_of k m"
proof -
  let ?m1 = "touch_queues k (lock_of k m)"
  have "q \<in> set (queues_of k ?m1)" "put_error (queue_objs ?m1 q) = None" "full (queue_objs ?m1 q)"
    using assms by simp_all
  from deliver_waits [OF this, of "JDict [(''type'', JString t), (''object'', obj)]" "[]"]
  obtain q' m' where
    d: "deliver (JDict [(''type'', JString t), (''object'', obj)]) (queues_of k ?m1) [] ?m1 = Inr (q', m')"
       "full (queue_objs m' q')" "put_error (queue_objs m' q') = None"
       "client_queues m' = client_queues ?m1"
    by blast
  have "queues_of k m' = queues_of k ?m1"
    using d(4) by (simp add: queues_of_def)
  with d show ?thesis
    by (simp add: broadcast_event_def Let_def)
qed

lemma queues_of_other_updates [simp]:
  "queues_of k (m\<lparr>constructed := c\<rparr>) = queues_of k m"
  "queues_of k (m\<lparr>namespace_watchers := nw\<rparr>) = queues_of k m"
  "queues_of k (m\<lparr>single_watchers := sw\<rparr>) = queues_of k m"
  "queues_of k (m\<lparr>event_watchers := ew\<rparr>) = queues_of k m"
  "queues_of k (m\<lparr>threads := th\<rparr>) = queues_of k m"
  "queues_of k (m\<lparr>stop_flags := sf\<rparr>) = queues_of k m"
  by (simp_all add: queues_of_def)

lemma register_namespace_watch_fields:
  "queues_of k (register_namespace_watch ns q m) = (if k = ''ns:'' @ ns then queues_of k m @ [q] else queues_of k m)"
  "queue_objs (register_namespace_watch ns q m) = queue_objs m"
  "stop_flags (register_namespace_watch ns q m) = stop_flags m"
  "single_watchers (register_namespace_watch ns q m) = single_watchers m"
  "event_watchers (register_namespace_watch ns q m) = event_watchers m"
  "namespace_watchers (register_namespace_watch ns q m) =
     (if namespace_watchers m (''ns:'' @ ns) = None
      then (namespace_watchers m)(''ns:'' @ ns \<mapsto> constructed m) else namespace_watchers m)"
  "constructed (register_namespace_watch ns q m) =
     (if namespace_watchers m (''ns:'' @ ns) = None then Suc (constructed m) else constructed m)"
  "threads (register_namespace_watch ns q m) =
     (if namespace_watchers m (''ns:'' @ ns) = None
      then threads m @ [(constructed m, Watch_namespace ns)] else threads m)"
  by (auto simp: register_namespace_watch_def Let_def)

lemma register_single_watch_fields:
  "queues_of k (register_single_watch ns n q m) =
     (if k = ''isvc:'' @ ns @ ''/'' @ n then queues_of k m @ [q] else queues_of k m)"
  "queue_objs (register_single_watch ns n q m) = queue_objs m"
  "stop_flags (register_single_watch ns n q m) = stop_flags m"
  "namespace_watchers (register_single_watch ns n q m) = namespace_watchers m"
  "event_watchers (register_single_watch ns n q m) = event_watchers m"
  "single_watchers (register_single_watch ns n q m) =
     (if single_watchers m (''isvc:'' @ ns @ ''/'' @ n) = None
      then (single_watchers m)(''isvc:'' @ ns @ ''/'' @ n \<mapsto> constructed m) else single_watchers m)"
  "constructed (register_single_watch ns n q m) =
     (if single_watchers m (''isvc:'' @ ns @ ''/'' @ n) = None then Suc (constructed m) else constructed m)"
  "threads (register_single_watch ns n q m) =
     (if single_watchers m (''isvc:'' @ ns @ ''/'' @ n) = None
      then threads m @ [(constructed m, Watch_single ns n)] else threads m)"
  by (auto simp: register_single_watch_def Let_def)

lemma register_event_watch_fields:
  "queues_of k (register_event_watch ns n q m) =
     (if k = ''events:'' @ ns @ ''/'' @ n then queues_of k m @ [q] else queues_of k m)"
  "queue_objs (register_event_watch ns n q m) = queue_objs m"
  "stop_flags (register_event_watch ns n q m) = stop_flags m"
  "namespace_watchers (register_event_watch ns n q m) = namespace_watchers m"
  "single_watchers (register_event_watch ns n q m) = single_watchers m"
  "event_watchers (register_event_watch ns n q m) =
     (if event_watchers m (''events:'' @ ns @ ''/'' @ n) = None
      then (event_watchers m)(''events:'' @ ns @ ''/'' @ n \<mapsto> constructed m) else event_watchers m)"
  "constructed (register_event_watch ns n q m) =
     (if event_watchers m (''events:'' @ ns @ ''/'' @ n) = None then Suc (constructed m) else constructed m)"
  "threads (register_event_watch ns n q m) =
     (if event_watchers m (''events:'' @ ns @ ''/'' @ n) = None
      then threads m @ [(constructed m, Watch_events ns n)] else threads m)"
  by (auto simp: register_event_watch_def Let_def)

lemma watcher_for_key_of:
  "watcher_for (key_of t) m =
     (case t of Watch_namespace ns \<Rightarrow> namespace_watchers m (key_of t)
              | Watch_single ns n \<Rightarrow> single_watchers m (key_of t)
              | Watch_events ns n \<Rightarrow> event_watchers m (key_of t))"
  by (cases t) (simp_all add: watcher_for_def startswith_def)

lemma register_fields:
  "queues_of k (register t q m) = (if k = key_of t then queues_of k m @ [q] else queues_of k m)"
  "queue_objs (register t q m) = queue_objs m"
  "stop_flags (register t q m) = stop_flags m"
  "constructed (register t q m) =
     (if watcher_for (key_of t) m = None then Suc (constructed m) else constructed m)"
  "threads (register t q m) =
     (if watcher_for (key_of t) m = None then threads m @ [(constructed m, t)] else threads m)"
  "watcher_for k (register t q m) =
     (if k = key_of t \<and> watcher_for k m = None then Some (constructed m) else watcher_for k m)"
       apply (cases t; simp add: register_namespace_watch_fields register_single_watch_fields register_event_watch_fields)
      apply (cases t; simp add: register_namespace_watch_fields register_single_watch_fields register_event_watch_fields)
     apply (cases t; simp add: register_namespace_watch_fields register_single_watch_fields register_event_watch_fields)
    apply (cases t; simp add: register_namespace_watch_fields register_single_watch_fields register_event_watch_fields watcher_for_def startswith_def)
   apply (cases t; simp add: register_namespace_watch_fields register_single_watch_fields register_event_watch_fields watcher_for_def startswith_def)
  apply (cases t; auto simp add: register_namespace_watch_fields register_single_watch_fields register_event_watch_fields watcher_for_def startswith_def)
  done


lemma stop_watcher_fields:
  "queues_of k' (stop_watcher k m) = queues_of k' m"
  "queue_objs (stop_watcher k m) = queue_objs m"
  "constructed (stop_watcher k m) = constructed m"
  "threads (stop_watcher k m) = threads m"
  "stop_flags (stop_watcher k m) = (case watcher_for k m of None \<Rightarrow> stop_flags m | Some w \<Rightarrow> insert w (stop_flags m))"
  "watcher_for k' (stop_watcher k m) = (if k' = k then None else watcher_for k' m)"
  by (auto simp: stop_watcher_def watcher_for_def Let_def split: option.split)

lemma stop_watcher_tables:
  "namespace_watchers (stop_watcher k m) = (if startswith k ''ns:'' then (namespace_watchers m)(k := None) else namespace_watchers m)"
  "single_watchers (stop_watcher k m) =
     (if \<not> startswith k ''ns:'' \<and> startswith k ''isvc:'' then (single_watchers m)(k := None) else single_watchers m)"
  "event_watchers (stop_watcher k m) =
     (if \<not> startswith k ''ns:'' \<and> \<not> startswith k ''isvc:'' \<and> startswith k ''events:''
      then (event_watchers m)(k := None) else event_watchers m)"
  by (auto simp: stop_watcher_def Let_def split: option.split)

lemma watcher_for_simps [simp]:
  "watcher_for k (lock_of k' m) = watcher_for k m"
  "watcher_for k (touch_queues k' m) = watcher_for k m"
  "watcher_for k (set_queues k' qs m) = watcher_for k m"
  "watcher_for k (mlog_to l s m) = watcher_for k m"
  by (simp_all add: watcher_for_def)

lemma after_unregister_alt:
  "after_unregister k q m =
     (let m2 = (if q \<in> set (queues_of k m)
                then set_queues k (remove1 q (queues_of k m)) (touch_queues k (lock_of k m))
                else touch_queues k (lock_of k m))
      in if remove1 q (queues_of k m) = [] then stop_watcher k m2 else m2)"
  by (simp add: after_unregister_def unregister_client_def list_remove_def Let_def remove1_idem)

lemma unregister_client_returns: "unregister_client k q m = Inr (after_unregister k q m)"
  by (simp add: after_unregister_def unregister_client_def list_remove_def Let_def)

lemma after_unregister_fields:
  "queues_of k' (after_unregister k q m) = (if k' = k then remove1 q (queues_of k m) else queues_of k' m)"
  "queue_objs (after_unregister k q m) = queue_objs m"
  "constructed (after_unregister k q m) = constructed m"
  "threads (after_unregister k q m) = threads m"
  "stop_flags (after_unregister k q m) =
     (if remove1 q (queues_of k m) = []
      then (case watcher_for k m of None \<Rightarrow> stop_flags m | Some w \<Rightarrow> insert w (stop_flags m))
      else stop_flags m)"
  "watcher_for k' (after_unregister k q m) =
     (if k' = k \<and> remove1 q (queues_of k m) = [] then None else watcher_for k' m)"
  by (simp_all add: after_unregister_alt Let_def stop_watcher_fields remove1_idem split: option.split)


lemma watcher_part_simps [simp]:
  "watcher_part (lock_of k m) = watcher_part m"
  "watcher_part (touch_queues k m) = watcher_part m"
  "watcher_part (set_queues k qs m) = watcher_part m"
  "watcher_part (mlog_to l s m) = watcher_part m"
  "watcher_part (m\<lparr>queue_objs := f\<rparr>) = watcher_part m"
  by (simp_all add: watcher_part_def)

lemma deliver_watcher_part:
  "(case deliver ev qs dead m of
      Inl (d, m') \<Rightarrow> watcher_part m' = watcher_part m
    | Inr (q, m') \<Rightarrow> watcher_part m' = watcher_part m)"
proof (induction qs arbitrary: dead m)
  case Nil
  show ?case by simp
next
  case (Cons x qs)
  show ?case
  proof (cases "put ev True None (queue_objs m x)")
    case (Put_done q')
    with Cons.IH [where dead = dead and m = "m\<lparr>queue_objs := (queue_objs m)(x := q')\<rparr>"] show ?thesis
      by (simp split: sum.splits prod.splits)
  next
    case (Put_raises e)
    with Cons.IH [where dead = "dead @ [x]" and m = "mlog_to ERROR (''Error sending event to client: '' @ e) m"]
    show ?thesis by (simp split: sum.splits prod.splits)
  next
    case Put_waits
    then show ?thesis by simp
  qed
qed

lemma remove_dead_watcher_part:
  "watcher_part (state_of (remove_dead k ds m)) = watcher_part m"
proof (induction ds arbitrary: m)
  case Nil
  show ?case by (simp add: state_of_def)
next
  case (Cons d ds)
  show ?case
    using Cons.IH [where m = "set_queues k (remove1 d (queues_of k m)) m"]
    by (simp add: state_of_def)
qed

lemma broadcast_watcher_part:
  "watcher_part (state_of (broadcast_event k t obj m)) = watcher_part m"
proof -
  let ?ev = "JDict [(''type'', JString t), (''object'', obj)]"
  let ?m1 = "touch_queues k (lock_of k m)"
  show ?thesis
  proof (cases "deliver ?ev (queues_of k ?m1) [] ?m1")
    case (Inl a)
    obtain d m' where a: "a = (d, m')" by (cases a)
    from deliver_watcher_part [where ev = ?ev and qs = "queues_of k ?m1" and dead = "[]" and m = ?m1] Inl a
    have "watcher_part m' = watcher_part m" by simp
    with Inl a remove_dead_watcher_part [where k = k and ds = d and m = m'] show ?thesis
      by (simp add: broadcast_event_def Let_def)
  next
    case (Inr b)
    obtain q m' where b: "b = (q, m')" by (cases b)
    from deliver_watcher_part [where ev = ?ev and qs = "queues_of k ?m1" and dead = "[]" and m = ?m1] Inr b
    have "watcher_part m' = watcher_part m" by simp
    with Inr b show ?thesis
      by (simp add: broadcast_event_def Let_def state_of_def)
  qed
qed

lemma watcher_part_determines:
  assumes "watcher_part m' = watcher_part m"
  shows "live_watchers k m' = live_watchers k m" "watcher_for k m' = watcher_for k m"
    "well_formed m' = well_formed m" "constructed m' = constructed m"
    "threads m' = threads m" "stop_flags m' = stop_flags m"
proof -
  from assms have f: "namespace_watchers m' = namespace_watchers m" "single_watchers m' = single_watchers m"
    "event_watchers m' = event_watchers m" "constructed m' = constructed m"
    "threads m' = threads m" "stop_flags m' = stop_flags m"
    by (simp_all add: watcher_part_def)
  then have l: "\<And>k. live_watchers k m' = live_watchers k m" "\<And>k. watcher_for k m' = watcher_for k m"
    by (simp_all add: live_watchers_def watcher_for_def)
  from l show "live_watchers k m' = live_watchers k m" "watcher_for k m' = watcher_for k m" by simp_all
  from f l show "well_formed m' = well_formed m" by (simp add: well_formed_def)
  from f show "constructed m' = constructed m" "threads m' = threads m" "stop_flags m' = stop_flags m"
    by simp_all
qed


lemma well_formed_init: "well_formed (init_manager store)"
  by (simp add: well_formed_def init_manager_def live_watchers_def watcher_for_def)

lemma register_known_key:
  "watcher_for (key_of t) m \<noteq> None \<Longrightarrow> watcher_part (register t q m) = watcher_part m"
  by (cases t)
     (auto simp: watcher_part_def watcher_for_def startswith_def register_namespace_watch_fields
        register_single_watch_fields register_event_watch_fields)

lemma register_table_prefixes:
  "namespace_watchers (register t q m) k \<noteq> None \<Longrightarrow> namespace_watchers m k \<noteq> None \<or> startswith k ''ns:''"
  "single_watchers (register t q m) k \<noteq> None \<Longrightarrow> single_watchers m k \<noteq> None \<or> startswith k ''isvc:''"
  "event_watchers (register t q m) k \<noteq> None \<Longrightarrow> event_watchers m k \<noteq> None \<or> startswith k ''events:''"
  by (cases t; auto simp: register_namespace_watch_fields register_single_watch_fields
        register_event_watch_fields startswith_def split: if_splits)+

lemma live_watchers_new_thread:
  "live_watchers k (register t q m) =
     (if watcher_for (key_of t) m = None
      then live_watchers k m @ (if key_of t = k \<and> constructed m \<notin> stop_flags m then [constructed m] else [])
      else live_watchers k m)"
proof (cases "watcher_for (key_of t) m = None")
  case True
  then have "threads (register t q m) = threads m @ [(constructed m, t)]"
    "stop_flags (register t q m) = stop_flags m"
    by (simp_all add: register_fields(3,5))
  with True show ?thesis
    by (simp add: live_watchers_def)
next
  case False
  then have "threads (register t q m) = threads m" "stop_flags (register t q m) = stop_flags m"
    by (simp_all add: register_fields(3,5))
  with False show ?thesis
    by (auto simp: live_watchers_def)
qed

lemma well_formed_register:
  assumes "well_formed m"
  shows "well_formed (register t q m)"
proof (cases "watcher_for (key_of t) m")
  case (Some w)
  then have "watcher_part (register t q m) = watcher_part m"
    by (simp add: register_known_key)
  from watcher_part_determines(3) [OF this] assms show ?thesis
    by simp
next
  case None
  let ?m = "register t q m"
  from assms have wf:
    "distinct (map fst (threads m))"
    "\<forall>w \<in> fst ` set (threads m). w < constructed m"
    "\<forall>w \<in> stop_flags m. w < constructed m"
    "\<forall>k. namespace_watchers m k \<noteq> None \<longrightarrow> startswith k ''ns:''"
    "\<forall>k. single_watchers m k \<noteq> None \<longrightarrow> startswith k ''isvc:''"
    "\<forall>k. event_watchers m k \<noteq> None \<longrightarrow> startswith k ''events:''"
    "\<forall>k. live_watchers k m = (case watcher_for k m of None \<Rightarrow> [] | Some w \<Rightarrow> [w])"
    by (simp_all add: well_formed_def)
  have fresh: "constructed m \<notin> fst ` set (threads m)" "constructed m \<notin> stop_flags m"
    using wf(2,3) by auto
  have rf: "threads ?m = threads m @ [(constructed m, t)]" "constructed ?m = Suc (constructed m)"
    "stop_flags ?m = stop_flags m"
    using None by (simp_all add: register_fields(3,4,5))
  have rw: "watcher_for k ?m = (if k = key_of t then Some (constructed m) else watcher_for k m)" for k
  proof (cases "k = key_of t")
    case True
    have "watcher_for (key_of t) ?m = Some (constructed m)"
      unfolding register_fields(6) using None by simp
    with True show ?thesis by simp
  next
    case False
    then show ?thesis
      unfolding register_fields(6) by simp
  qed
  have 1: "distinct (map fst (threads ?m))"
    using wf(1) fresh by (simp add: rf)
  have 2: "\<forall>w \<in> fst ` set (threads ?m). w < constructed ?m"
    using wf(2) by (auto simp: rf)
  have 3: "\<forall>w \<in> stop_flags ?m. w < constructed ?m"
    using wf(3) by (auto simp: rf)
  have 4: "\<forall>k. namespace_watchers ?m k \<noteq> None \<longrightarrow> startswith k ''ns:''"
    using wf(4) register_table_prefixes(1) [of t q m] by blast
  have 5: "\<forall>k. single_watchers ?m k \<noteq> None \<longrightarrow> startswith k ''isvc:''"
    using wf(5) register_table_prefixes(2) [of t q m] by blast
  have 6: "\<forall>k. event_watchers ?m k \<noteq> None \<longrightarrow> startswith k ''events:''"
    using wf(6) register_table_prefixes(3) [of t q m] by blast
  have 7: "\<forall>k. live_watchers k ?m = (case watcher_for k ?m of None \<Rightarrow> [] | Some w \<Rightarrow> [w])"
  proof
    fix k
    show "live_watchers k ?m = (case watcher_for k ?m of None \<Rightarrow> [] | Some w \<Rightarrow> [w])"
    proof (cases "k = key_of t")
      case True
      with None wf(7) have "live_watchers k m = []" by simp
      with True None fresh show ?thesis
        by (simp add: live_watchers_new_thread rw)
    next
      case False
      with None wf(7) show ?thesis
        by (simp add: live_watchers_new_thread rw)
    qed
  qed
  show ?thesis
    unfolding well_formed_def by (intro conjI 1 2 3 4 5 6 7)
qed

lemma live_watchers_stop:
  "live_watchers k (m\<lparr>stop_flags := insert w (stop_flags m)\<rparr>) = filter (\<lambda>x. x \<noteq> w) (live_watchers k m)"
proof -
  have "(\<lambda>(wa, t). key_of t = k \<and> wa \<notin> insert w (stop_flags m)) =
        (\<lambda>x. (case x of (w', t) \<Rightarrow> key_of t = k \<and> w' \<notin> stop_flags m) \<and> fst x \<noteq> w)"
    by (auto simp: fun_eq_iff)
  then show ?thesis
    by (simp add: live_watchers_def filter_map comp_def)
qed

lemma live_watchers_cong:
  "threads m' = threads m \<Longrightarrow> stop_flags m' = stop_flags m \<Longrightarrow> live_watchers k m' = live_watchers k m"
  by (simp add: live_watchers_def)

lemma live_watchers_one_key:
  assumes "distinct (map fst (threads m))"
    and "w \<in> set (live_watchers k m)" and "w \<in> set (live_watchers k' m)"
  shows "k = k'"
proof -
  from assms(2) obtain t where t: "(w, t) \<in> set (threads m)" "key_of t = k"
    by (auto simp: live_watchers_def)
  from assms(3) obtain t' where t': "(w, t') \<in> set (threads m)" "key_of t' = k'"
    by (auto simp: live_watchers_def)
  from assms(1) t(1) t'(1) have "t = t'"
    by (rule eq_key_imp_eq_value)
  with t t' show ?thesis by simp
qed

lemma stop_watcher_no_watcher:
  "watcher_for k m = None \<Longrightarrow> watcher_part (stop_watcher k m) = watcher_part m"
  by (auto simp: watcher_part_def stop_watcher_tables stop_watcher_fields watcher_for_def fun_upd_idem
        split: if_splits)

lemma unregister_keeps_watchers:
  assumes "remove1 q (queues_of k m) \<noteq> [] \<or> watcher_for k m = None"
  shows "watcher_part (after_unregister k q m) = watcher_part m"
proof (cases "remove1 q (queues_of k m) = []")
  case False
  then show ?thesis
    by (simp add: after_unregister_alt Let_def)
next
  case True
  with assms have n: "watcher_for k m = None" by simp
  let ?m2 = "if q \<in> set (queues_of k m)
             then set_queues k (remove1 q (queues_of k m)) (touch_queues k (lock_of k m))
             else touch_queues k (lock_of k m)"
  have u: "after_unregister k q m = stop_watcher k ?m2"
    using True by (simp add: after_unregister_alt Let_def)
  have w2: "watcher_part ?m2 = watcher_part m" "watcher_for k ?m2 = None"
    using n by simp_all
  have "watcher_part (stop_watcher k ?m2) = watcher_part ?m2"
    using w2(2) by (rule stop_watcher_no_watcher)
  with u w2(1) show ?thesis by simp
qed


lemma stop_watcher_table_prefixes:
  "namespace_watchers (stop_watcher k m) k' \<noteq> None \<Longrightarrow> namespace_watchers m k' \<noteq> None"
  "single_watchers (stop_watcher k m) k' \<noteq> None \<Longrightarrow> single_watchers m k' \<noteq> None"
  "event_watchers (stop_watcher k m) k' \<noteq> None \<Longrightarrow> event_watchers m k' \<noteq> None"
  by (auto simp: stop_watcher_tables split: if_splits)

lemma unregister_table_prefixes:
  "namespace_watchers (after_unregister k q m) k' \<noteq> None \<Longrightarrow> namespace_watchers m k' \<noteq> None"
  "single_watchers (after_unregister k q m) k' \<noteq> None \<Longrightarrow> single_watchers m k' \<noteq> None"
  "event_watchers (after_unregister k q m) k' \<noteq> None \<Longrightarrow> event_watchers m k' \<noteq> None"
  by (auto simp: after_unregister_alt Let_def stop_watcher_tables split: if_splits)

lemma well_formed_unregister:
  assumes "well_formed m"
  shows "well_formed (after_unregister k q m)"
proof (cases "remove1 q (queues_of k m) \<noteq> [] \<or> watcher_for k m = None")
  case True
  from watcher_part_determines(3) [OF unregister_keeps_watchers [OF True]] assms
  show ?thesis by simp
next
  case False
  then obtain w where e: "remove1 q (queues_of k m) = []" and w: "watcher_for k m = Some w"
    by auto
  let ?m = "after_unregister k q m"
  from assms have wf:
    "distinct (map fst (threads m))"
    "\<forall>w \<in> fst ` set (threads m). w < constructed m"
    "\<forall>w \<in> stop_flags m. w < constructed m"
    "\<forall>k. namespace_watchers m k \<noteq> None \<longrightarrow> startswith k ''ns:''"
    "\<forall>k. single_watchers m k \<noteq> None \<longrightarrow> startswith k ''isvc:''"
    "\<forall>k. event_watchers m k \<noteq> None \<longrightarrow> startswith k ''events:''"
    "\<forall>k. live_watchers k m = (case watcher_for k m of None \<Rightarrow> [] | Some w \<Rightarrow> [w])"
    by (simp_all add: well_formed_def)
  have uf: "threads ?m = threads m" "constructed ?m = constructed m"
    "stop_flags ?m = insert w (stop_flags m)"
    using e w by (simp_all add: after_unregister_fields(3,4,5))
  have uw: "watcher_for k' ?m = (if k' = k then None else watcher_for k' m)" for k'
    using e by (simp add: after_unregister_fields(6))
  have lk: "live_watchers k m = [w]"
    using wf(7) w by simp
  then have "w \<in> set (live_watchers k m)" by simp
  then have "w \<in> fst ` set (threads m)"
    by (auto simp: live_watchers_def)
  with wf(2) have wc: "w < constructed m" by blast
  have lv: "live_watchers k' ?m = filter (\<lambda>x. x \<noteq> w) (live_watchers k' m)" for k'
  proof -
    have "live_watchers k' ?m = live_watchers k' (m\<lparr>stop_flags := insert w (stop_flags m)\<rparr>)"
      by (rule live_watchers_cong) (simp_all add: uf)
    then show ?thesis by (simp add: live_watchers_stop)
  qed
  have 1: "distinct (map fst (threads ?m))"
    using wf(1) by (simp add: uf)
  have 2: "\<forall>w \<in> fst ` set (threads ?m). w < constructed ?m"
    using wf(2) by (simp add: uf)
  have 3: "\<forall>w \<in> stop_flags ?m. w < constructed ?m"
    using wf(3) wc by (simp add: uf)
  have 4: "\<forall>k. namespace_watchers ?m k \<noteq> None \<longrightarrow> startswith k ''ns:''"
    using wf(4) unregister_table_prefixes(1) [of k q m] by blast
  have 5: "\<forall>k. single_watchers ?m k \<noteq> None \<longrightarrow> startswith k ''isvc:''"
    using wf(5) unregister_table_prefixes(2) [of k q m] by blast
  have 6: "\<forall>k. event_watchers ?m k \<noteq> None \<longrightarrow> startswith k ''events:''"
    using wf(6) unregister_table_prefixes(3) [of k q m] by blast
  have 7: "\<forall>k. live_watchers k ?m = (case watcher_for k ?m of None \<Rightarrow> [] | Some w \<Rightarrow> [w])"
  proof
    fix k'
    show "live_watchers k' ?m = (case watcher_for k' ?m of None \<Rightarrow> [] | Some w \<Rightarrow> [w])"
    proof (cases "k' = k")
      case True
      then show ?thesis by (simp add: lv uw lk)
    next
      case False
      have "w \<notin> set (live_watchers k' m)"
      proof
        assume "w \<in> set (live_watchers k' m)"
        with wf(1) \<open>w \<in> set (live_watchers k m)\<close> have "k = k'"
          by (rule live_watchers_one_key)
        with False show False by simp
      qed
      then have "filter (\<lambda>x. x \<noteq> w) (live_watchers k' m) = live_watchers k' m"
        by (auto simp: filter_id_conv)
      with False wf(7) show ?thesis by (simp add: lv uw)
    qed
  qed
  show ?thesis
    unfolding well_formed_def by (intro conjI 1 2 3 4 5 6 7)
qed

lemma run_simps [simp]:
  "run [] m = m"
  "run (x # ops) m = run ops (apply_op x m)"
  "run (ops @ ops') m = run ops' (run ops m)"
  by (simp_all add: run_def)

lemma well_formed_apply_op: "well_formed m \<Longrightarrow> well_formed (apply_op x m)"
proof (cases x)
  case (Register t q)
  then show "well_formed m \<Longrightarrow> well_formed (apply_op x m)"
    by (simp add: well_formed_register)
next
  case (Unregister k q)
  then show "well_formed m \<Longrightarrow> well_formed (apply_op x m)"
    by (simp add: well_formed_unregister)
next
  case (Broadcast k t obj)
  assume "well_formed m"
  with watcher_part_determines(3) [OF broadcast_watcher_part, of k t obj m] Broadcast
  show "well_formed (apply_op x m)" by simp
qed

lemma well_formed_run: "well_formed m \<Longrightarrow> well_formed (run ops m)"
  by (induction ops arbitrary: m) (simp_all add: well_formed_apply_op)

lemma reachable_well_formed: "well_formed (run ops (init_manager store))"
  by (rule well_formed_run) (rule well_formed_init)

lemma register_again:
  "watcher_for (key_of t) m \<noteq> None \<Longrightarrow>
   watcher_part (run (map (Register t) qs) m) = watcher_part m
   \<and> queues_of (key_of t) (run (map (Register t) qs) m) = queues_of (key_of t) m @ qs"
proof (induction qs arbitrary: m)
  case Nil
  show ?case by simp
next
  case (Cons q qs)
  have p: "watcher_part (register t q m) = watcher_part m"
    using Cons.prems by (rule register_known_key)
  have "watcher_for (key_of t) (register t q m) \<noteq> None"
    using Cons.prems watcher_part_determines(2) [OF p, of "key_of t"] by simp
  from Cons.IH [OF this] p show ?case
    by (simp add: register_fields(1))
qed

lemma register_first:
  assumes "watcher_for (key_of t) m = None" and "qs \<noteq> []"
  shows "constructed (run (map (Register t) qs) m) = Suc (constructed m)"
    and "threads (run (map (Register t) qs) m) = threads m @ [(constructed m, t)]"
    and "stop_flags (run (map (Register t) qs) m) = stop_flags m"
    and "watcher_for (key_of t) (run (map (Register t) qs) m) = Some (constructed m)"
    and "queues_of (key_of t) (run (map (Register t) qs) m) = queues_of (key_of t) m @ qs"
proof -
  from assms(2) obtain q qs' where qs: "qs = q # qs'" by (cases qs) auto
  let ?m1 = "register t q m"
  have f: "constructed ?m1 = Suc (constructed m)" "threads ?m1 = threads m @ [(constructed m, t)]"
    "stop_flags ?m1 = stop_flags m"
    using assms(1) by (simp_all add: register_fields(3,4,5))
  have w: "watcher_for (key_of t) ?m1 = Some (constructed m)"
    unfolding register_fields(6) using assms(1) by simp
  then have "watcher_for (key_of t) ?m1 \<noteq> None" by simp
  from register_again [OF this, of qs']
  have r: "watcher_part (run (map (Register t) qs') ?m1) = watcher_part ?m1"
    "queues_of (key_of t) (run (map (Register t) qs') ?m1) = queues_of (key_of t) ?m1 @ qs'"
    by simp_all
  note d = watcher_part_determines [OF r(1)]
  show "constructed (run (map (Register t) qs) m) = Suc (constructed m)"
    using d(4) f by (simp add: qs)
  show "threads (run (map (Register t) qs) m) = threads m @ [(constructed m, t)]"
    using d(5) f by (simp add: qs)
  show "stop_flags (run (map (Register t) qs) m) = stop_flags m"
    using d(6) f by (simp add: qs)
  show "watcher_for (key_of t) (run (map (Register t) qs) m) = Some (constructed m)"
    using d(2) [of "key_of t"] w by (simp add: qs)
  show "queues_of (key_of t) (run (map (Register t) qs) m) = queues_of (key_of t) m @ qs"
    using r(2) by (simp add: qs register_fields(1))
qed


lemma unregister_some:
  "mset us \<subset># mset (queues_of k m) \<Longrightarrow>
   watcher_part (run (map (Unregister k) us) m) = watcher_part m
   \<and> mset (queues_of k (run (map (Unregister k) us) m)) = mset (queues_of k m) - mset us"
proof (induction us arbitrary: m)
  case Nil
  show ?case by simp
next
  case (Cons u us)
  let ?l = "queues_of k m"
  let ?m = "after_unregister k u m"
  from Cons.prems have sub: "add_mset u (mset us) \<subset># mset ?l" by simp
  then have u: "u \<in># mset ?l"
    by (meson mset_subset_insertD)
  from sub have rest: "mset us \<subset># mset ?l - {#u#}"
    using u by (metis insert_DiffM mset_subset_add_mset)
  have l': "queues_of k ?m = remove1 u ?l"
    by (simp add: after_unregister_fields(1))
  have ne: "remove1 u ?l \<noteq> []"
  proof
    assume "remove1 u ?l = []"
    then have "mset (remove1 u ?l) = {#}" by simp
    then have "mset ?l - {#u#} = {#}" by simp
    with rest show False by simp
  qed
  then have p: "watcher_part ?m = watcher_part m"
    by (simp add: unregister_keeps_watchers)
  from rest have "mset us \<subset># mset (queues_of k ?m)"
    by (simp add: l')
  from Cons.IH [OF this] p show ?case
    by (simp add: l')
qed

lemma unregister_last:
  assumes "queues_of k m = [u]" and "watcher_for k m = Some w"
  shows "watcher_for k (after_unregister k u m) = None"
    and "stop_flags (after_unregister k u m) = insert w (stop_flags m)"
    and "constructed (after_unregister k u m) = constructed m"
    and "threads (after_unregister k u m) = threads m"
    and "queues_of k (after_unregister k u m) = []"
  using assms by (simp_all add: after_unregister_fields)

lemma no_register_op:
  assumes "\<not> is_register x"
  shows "constructed (apply_op x m) = constructed m"
    and "threads (apply_op x m) = threads m"
    and "watcher_for k m = None \<Longrightarrow> watcher_for k (apply_op x m) = None"
proof -
  have "constructed (apply_op x m) = constructed m \<and> threads (apply_op x m) = threads m
        \<and> (watcher_for k m = None \<longrightarrow> watcher_for k (apply_op x m) = None)"
  proof (cases x)
    case (Register t q)
    with assms show ?thesis by simp
  next
    case (Unregister k' q)
    then show ?thesis by (simp add: after_unregister_fields(3,4,6))
  next
    case (Broadcast k' t obj)
    note d = watcher_part_determines
      [OF broadcast_watcher_part [where k = k' and t = t and obj = obj and m = m]]
    from Broadcast d(4) d(5) d(2) [of k] show ?thesis by simp
  qed
  then show "constructed (apply_op x m) = constructed m"
    and "threads (apply_op x m) = threads m"
    and "watcher_for k m = None \<Longrightarrow> watcher_for k (apply_op x m) = None"
    by simp_all
qed

lemma no_register_run:
  "\<forall>x \<in> set ops. \<not> is_register x \<Longrightarrow> watcher_for k m = None \<Longrightarrow>
   constructed (run ops m) = constructed m \<and> threads (run ops m) = threads m
   \<and> watcher_for k (run ops m) = None"
proof (induction ops arbitrary: m)
  case Nil
  then show ?case by simp
next
  case (Cons x ops)
  from Cons.prems have x: "\<not> is_register x" and r: "\<forall>x \<in> set ops. \<not> is_register x" by simp_all
  from no_register_op(3) [OF x Cons.prems(2)] have "watcher_for k (apply_op x m) = None" .
  from Cons.IH [OF r this] show ?case
    by (simp add: no_register_op(1,2) [OF x])
qed

lemma init_manager_fields [simp]:
  "queue_objs (init_manager store) = store"
  "constructed (init_manager store) = 0"
  "threads (init_manager store) = []"
  "stop_flags (init_manager store) = {}"
  "mlog (init_manager store) = []"
  "namespace_watchers (init_manager store) = Map.empty"
  "single_watchers (init_manager store) = Map.empty"
  "event_watchers (init_manager store) = Map.empty"
  "queues_of k (init_manager store) = []"
  "watcher_for k (init_manager store) = None"
  by (simp_all add: init_manager_def queues_of_def watcher_for_def)

lemma example_store_simps [simp]:
  "example_store 0 = \<lparr>items = [], maxsize = 100, put_error = Some ''BrokenPipeError''\<rparr>"
  "example_store (Suc 0) = \<lparr>items = replicate 100 JNull, maxsize = 100, put_error = None\<rparr>"
  "example_store 2 = Queue 100"
  "example_store 3 = Queue 100"
  by (simp_all add: example_store_def)

text \<open>
  Claim C3. Take the manager at any point of its life at which the key has no watcher and
  no attached queue, and let N (at least one) register calls for the key take effect in
  any order. Then exactly one watcher is constructed, one thread is started, and the
  watcher is stored for the key. While the N matching unregister calls take effect, in
  any order, the watcher stays stored and live as long as fewer than N have been made;
  the last one removes it from the table and stops it. After that no sequence of
  unregister and broadcast calls constructs a watcher or makes one live for the key.
  And after every sequence of calls whatever, no key has more than one live watcher.
\<close>

theorem one_watcher_per_key:
  assumes "m = run pre (init_manager store)"
    and "watcher_for (key_of t) m = None" and "queues_of (key_of t) m = []"
    and "qs \<noteq> []" and "mset us = mset qs"
    and "m1 = run (map (Register t) qs) m"
    and "m3 = run (map (Unregister (key_of t)) us) m1"
  shows "constructed m1 = Suc (constructed m)
       \<and> threads m1 = threads m @ [(constructed m, t)]
       \<and> watcher_for (key_of t) m1 = Some (constructed m)
       \<and> (\<forall>n < length us.
             watcher_for (key_of t) (run (map (Unregister (key_of t)) (take n us)) m1) = Some (constructed m)
           \<and> live_watchers (key_of t) (run (map (Unregister (key_of t)) (take n us)) m1) = [constructed m]
           \<and> constructed (run (map (Unregister (key_of t)) (take n us)) m1) = Suc (constructed m))
       \<and> watcher_for (key_of t) m3 = None
       \<and> live_watchers (key_of t) m3 = []
       \<and> constructed m \<in> stop_flags m3
       \<and> constructed m3 = Suc (constructed m)
       \<and> (\<forall>ops. (\<forall>x \<in> set ops. \<not> is_register x) \<longrightarrow>
             constructed (run ops m3) = Suc (constructed m)
           \<and> watcher_for (key_of t) (run ops m3) = None
           \<and> live_watchers (key_of t) (run ops m3) = [])
       \<and> (\<forall>ops k. length (live_watchers k (run ops m)) \<le> 1)"
proof -
  let ?k = "key_of t"
  let ?c = "constructed m"
  have wf_run: "well_formed (run ops m)" for ops
    unfolding assms(1) run_simps(3) [symmetric] by (rule reachable_well_formed)
  have live: "live_watchers k (run ops m) = (case watcher_for k (run ops m) of None \<Rightarrow> [] | Some w \<Rightarrow> [w])"
    for ops k
    using wf_run [of ops] by (simp add: well_formed_def)
  have live2: "live_watchers k (run b (run a m)) =
      (case watcher_for k (run b (run a m)) of None \<Rightarrow> [] | Some w \<Rightarrow> [w])" for a b k
    using live [of k "a @ b"] by simp
  have live3: "live_watchers k (run c (run b (run a m))) =
      (case watcher_for k (run c (run b (run a m))) of None \<Rightarrow> [] | Some w \<Rightarrow> [w])" for a b c k
    using live [of k "a @ b @ c"] by simp
  note r = register_first [OF assms(2) assms(4), folded assms(6)]
  have q1: "queues_of ?k m1 = qs"
    using r(5) assms(3) by simp
  have m1: "m1 = run (map (Register t) qs) m" by (rule assms(6))
  have A: "constructed m1 = Suc ?c" "threads m1 = threads m @ [(?c, t)]" "watcher_for ?k m1 = Some ?c"
    using r by simp_all
  have B: "watcher_for ?k (run (map (Unregister ?k) (take n us)) m1) = Some ?c
         \<and> live_watchers ?k (run (map (Unregister ?k) (take n us)) m1) = [?c]
         \<and> constructed (run (map (Unregister ?k) (take n us)) m1) = Suc ?c"
    if n: "n < length us" for n
  proof -
    let ?m2 = "run (map (Unregister ?k) (take n us)) m1"
    have "mset (take n us) \<subseteq># mset us"
      by (metis append_take_drop_id mset_append mset_subset_eq_add_left)
    moreover have "size (mset (take n us)) < size (mset us)"
      using n by simp
    ultimately have "mset (take n us) \<subset># mset us"
      by (metis less_irrefl subset_mset.le_neq_trans)
    then have "mset (take n us) \<subset># mset (queues_of ?k m1)"
      by (simp add: q1 assms(5))
    from unregister_some [OF this] have p: "watcher_part ?m2 = watcher_part m1" by simp
    note d = watcher_part_determines [OF p]
    have w: "watcher_for ?k ?m2 = Some ?c"
      using d(2) [of ?k] A(3) by simp
    have "live_watchers ?k ?m2 = (case watcher_for ?k ?m2 of None \<Rightarrow> [] | Some w \<Rightarrow> [w])"
      unfolding m1 by (rule live2)
    with w d(4) A(1) show ?thesis by simp
  qed
  have C: "watcher_for ?k m3 = None" "live_watchers ?k m3 = []" "?c \<in> stop_flags m3" "constructed m3 = Suc ?c"
  proof -
    from assms(4,5) have "us \<noteq> []" by auto
    then have us: "us = butlast us @ [last us]" by simp
    let ?m2 = "run (map (Unregister ?k) (butlast us)) m1"
    have "mset (butlast us) \<subset># mset us"
      by (subst (2) us) (simp del: append_butlast_last_id)
    then have "mset (butlast us) \<subset># mset (queues_of ?k m1)"
      by (simp add: q1 assms(5))
    from unregister_some [OF this]
    have p: "watcher_part ?m2 = watcher_part m1"
      and ms: "mset (queues_of ?k ?m2) = mset (queues_of ?k m1) - mset (butlast us)"
      by simp_all
    have "mset (queues_of ?k m1) = mset (butlast us) + {#last us#}"
      unfolding q1 assms(5) [symmetric] by (subst us) (simp del: append_butlast_last_id)
    with ms have "mset (queues_of ?k ?m2) = {#last us#}" by simp
    then have l2: "queues_of ?k ?m2 = [last us]"
      by (metis mset_single_iff_right)
    note d = watcher_part_determines [OF p]
    have w2: "watcher_for ?k ?m2 = Some ?c"
      using d(2) [of ?k] A(3) by simp
    have m3: "m3 = after_unregister ?k (last us) ?m2"
      unfolding assms(7) by (subst us) (simp del: append_butlast_last_id)
    note u = unregister_last [OF l2 w2, folded m3]
    show "watcher_for ?k m3 = None" by (rule u(1))
    show "?c \<in> stop_flags m3" by (simp add: u(2))
    show "constructed m3 = Suc ?c" using u(3) d(4) A(1) by simp
    have "live_watchers ?k m3 = (case watcher_for ?k m3 of None \<Rightarrow> [] | Some w \<Rightarrow> [w])"
      unfolding assms(7) m1 by (rule live2)
    then show "live_watchers ?k m3 = []" by (simp add: u(1))
  qed
  have D: "constructed (run ops m3) = Suc ?c \<and> watcher_for ?k (run ops m3) = None
           \<and> live_watchers ?k (run ops m3) = []"
    if ops: "\<forall>x \<in> set ops. \<not> is_register x" for ops
  proof -
    from no_register_run [OF ops C(1)]
    have n: "constructed (run ops m3) = constructed m3" "watcher_for ?k (run ops m3) = None"
      by simp_all
    have "live_watchers ?k (run ops m3) =
        (case watcher_for ?k (run ops m3) of None \<Rightarrow> [] | Some w \<Rightarrow> [w])"
      unfolding assms(7) m1 by (rule live3)
    with n C(4) show ?thesis by simp
  qed
  have E: "length (live_watchers k (run ops m)) \<le> 1" for ops k
    by (simp add: live split: option.split)
  from A B C D E show ?thesis by blast
qed

theorem one_watcher_per_key_witness:
  "watcher_for ''ns:team-a'' (init_manager example_store) = None
   \<and> queues_of ''ns:team-a'' (init_manager example_store) = []
   \<and> mset [3, 2] = mset [2, 3 :: nat]
   \<and> constructed (run [Register (Watch_namespace ''team-a'') 2, Register (Watch_namespace ''team-a'') 3]
         (init_manager example_store)) = 1
   \<and> watcher_for ''ns:team-a''
         (run [Unregister ''ns:team-a'' 3]
            (run [Register (Watch_namespace ''team-a'') 2, Register (Watch_namespace ''team-a'') 3]
               (init_manager example_store))) = Some 0
   \<and> 0 \<in> stop_flags
         (run [Unregister ''ns:team-a'' 3, Unregister ''ns:team-a'' 2]
            (run [Register (Watch_namespace ''team-a'') 2, Register (Watch_namespace ''team-a'') 3]
               (init_manager example_store)))"
proof -
  let ?t = "Watch_namespace ''team-a''"
  let ?m = "init_manager example_store"
  have h1: "?m = run [] ?m" by simp
  have h2: "watcher_for (key_of ?t) ?m = None" by simp
  have h3: "queues_of (key_of ?t) ?m = []" by simp
  have h4: "[2, 3 :: nat] \<noteq> []" by simp
  have h5: "mset [3, 2] = mset [2, 3 :: nat]" by (simp add: add_mset_commute)
  note th = one_watcher_per_key [OF h1 h2 h3 h4 h5 refl refl]
  from th have a: "constructed (run (map (Register ?t) [2, 3]) ?m) = Suc (constructed ?m)"
    by blast
  from th have ball: "\<forall>n < length [3, 2 :: nat].
      watcher_for (key_of ?t) (run (map (Unregister (key_of ?t)) (take n [3, 2])) (run (map (Register ?t) [2, 3]) ?m))
        = Some (constructed ?m)"
    by blast
  have b: "watcher_for (key_of ?t) (run (map (Unregister (key_of ?t)) (take 1 [3, 2])) (run (map (Register ?t) [2, 3]) ?m))
        = Some (constructed ?m)"
    using ball [rule_format, of 1] by simp
  from th have c: "constructed ?m \<in> stop_flags (run (map (Unregister (key_of ?t)) [3, 2]) (run (map (Register ?t) [2, 3]) ?m))"
    by blast
  from a b c h2 h3 h5 show ?thesis
    by (simp del: run_simps)
qed

lemma register_namespace_watch_queue_objs [simp]:
  "queue_objs (register_namespace_watch ns q m) = queue_objs m"
  by (rule register_namespace_watch_fields(2))

lemma register_namespace_watch_queues [simp]:
  "queues_of k (register_namespace_watch ns q m) = (if k = ''ns:'' @ ns then queues_of k m @ [q] else queues_of k m)"
  by (rule register_namespace_watch_fields(1))

lemma raising_example [simp]:
  "raising (register_namespace_watch ns q (init_manager example_store)) 0"
  "\<not> raising (register_namespace_watch ns q (init_manager example_store)) (Suc 0)"
  "\<not> raising (register_namespace_watch ns q (init_manager example_store)) 2"
  "raising (register_namespace_watch ns q' (register_namespace_watch ns q (init_manager example_store))) 0"
  "\<not> raising (register_namespace_watch ns q' (register_namespace_watch ns q (init_manager example_store))) (Suc 0)"
  "\<not> raising (register_namespace_watch ns q' (register_namespace_watch ns q (init_manager example_store))) 2"
  by (simp_all add: raising_def Queue_def)

text \<open>
  Claim C9. Broadcasting to a key with no attached queue returns (it neither raises nor
  waits), changes no queue object, leaves the queue list of every key as it was, and
  logs nothing; the watcher tables and the stop flags are untouched.
\<close>

theorem broadcast_no_clients:
  assumes "queues_of watch_key m = []"
  shows "\<exists>m'. broadcast_event watch_key event_type obj m = Returns m'
           \<and> queue_objs m' = queue_objs m
           \<and> (\<forall>k. queues_of k m' = queues_of k m)
           \<and> mlog m' = mlog m
           \<and> namespace_watchers m' = namespace_watchers m
           \<and> single_watchers m' = single_watchers m
           \<and> event_watchers m' = event_watchers m
           \<and> stop_flags m' = stop_flags m"
  using assms by (simp add: broadcast_event_def Let_def)

theorem broadcast_no_clients_witness:
  "queues_of ''ns:team-a'' (register_namespace_watch ''team-b'' 2 (init_manager example_store)) = []
   \<and> (\<exists>m'. broadcast_event ''ns:team-a'' ''ADDED'' JNull
               (register_namespace_watch ''team-b'' 2 (init_manager example_store)) = Returns m'
           \<and> queue_objs m' = example_store
           \<and> queues_of ''ns:team-b'' m' = [2])"
proof -
  let ?m = "register_namespace_watch ''team-b'' 2 (init_manager example_store)"
  have h: "queues_of ''ns:team-a'' ?m = []" by simp
  have q: "queue_objs ?m = example_store" "queues_of ''ns:team-b'' ?m = [2]" by simp_all
  from broadcast_no_clients [OF h, of "''ADDED''" JNull] obtain m' where
    "broadcast_event ''ns:team-a'' ''ADDED'' JNull ?m = Returns m'"
    "queue_objs m' = queue_objs ?m" "\<forall>k. queues_of k m' = queues_of k ?m"
    by blast
  with h q show ?thesis by simp
qed

text \<open>
  The eviction loop away from a full queue. In a call of \<open>_broadcast_event\<close> in which no
  \<open>put\<close> has to wait (every attached queue whose \<open>put\<close> does not raise has room for the
  envelope, once for each time it is in the list), the call returns; every attached queue
  whose \<open>put\<close> raises is logged and is no longer in the key's list, and its object is
  untouched; every other attached queue stays in the list and has received the envelope;
  the lists of the other keys, the watcher tables and the stop flags are as before, also
  when the list of the key is left empty.
\<close>

lemma broadcast_evicts_raising_queues:
  assumes "\<forall>q \<in> set (queues_of k m). \<not> raising m q \<longrightarrow> has_room (count_list (queues_of k m) q) (queue_objs m q)"
  shows "\<exists>m'. broadcast_event k t obj m = Returns m'
     \<and> queues_of k m' = filter (\<lambda>q. \<not> raising m q) (queues_of k m)
     \<and> mlog m' = mlog m @ map (send_error m) (filter (raising m) (queues_of k m))
     \<and> (\<forall>q \<in> set (queues_of k m). raising m q \<longrightarrow> queue_objs m' q = queue_objs m q)
     \<and> (\<forall>q \<in> set (queues_of k m). \<not> raising m q \<longrightarrow>
           items (queue_objs m' q) =
             items (queue_objs m q) @
               replicate (count_list (queues_of k m) q) (JDict [(''type'', JString t), (''object'', obj)]))
     \<and> (\<forall>k'. k' \<noteq> k \<longrightarrow> queues_of k' m' = queues_of k' m)
     \<and> namespace_watchers m' = namespace_watchers m
     \<and> single_watchers m' = single_watchers m
     \<and> event_watchers m' = event_watchers m
     \<and> stop_flags m' = stop_flags m"
proof -
  from broadcast_returns [OF assms, of t obj] obtain m' where
    m': "broadcast_event k t obj m = Returns m'"
        "queues_of k m' = filter (\<lambda>q. \<not> raising m q) (queues_of k m)"
        "mlog m' = mlog m @ map (send_error m) (filter (raising m) (queues_of k m))"
        "queue_objs m' = delivered (JDict [(''type'', JString t), (''object'', obj)]) (queues_of k m) m"
        "\<forall>k'. k' \<noteq> k \<longrightarrow> queues_of k' m' = queues_of k' m"
        "namespace_watchers m' = namespace_watchers m"
        "single_watchers m' = single_watchers m"
        "event_watchers m' = event_watchers m"
        "stop_flags m' = stop_flags m"
    by blast
  show ?thesis
    by (rule exI [of _ m']) (simp add: m' delivered_def)
qed

lemma broadcast_evicts_raising_queues_example:
  "queues_of ''ns:team-a''
        (register_namespace_watch ''team-a'' 2 (register_namespace_watch ''team-a'' 0 (init_manager example_store)))
     = [0, 2]
   \<and> raising (register_namespace_watch ''team-a'' 2 (register_namespace_watch ''team-a'' 0 (init_manager example_store))) 0
   \<and> has_room 1 (queue_objs
         (register_namespace_watch ''team-a'' 2 (register_namespace_watch ''team-a'' 0 (init_manager example_store))) 2)
   \<and> (\<exists>m'. broadcast_event ''ns:team-a'' ''ADDED'' JNull
              (register_namespace_watch ''team-a'' 2 (register_namespace_watch ''team-a'' 0 (init_manager example_store)))
              = Returns m'
         \<and> queues_of ''ns:team-a'' m' = [2]
         \<and> items (queue_objs m' 2) = [JDict [(''type'', JString ''ADDED''), (''object'', JNull)]]
         \<and> namespace_watchers m' ''ns:team-a'' = Some 0
         \<and> stop_flags m' = {})"
proof -
  let ?m = "register_namespace_watch ''team-a'' 2 (register_namespace_watch ''team-a'' 0 (init_manager example_store))"
  have qs: "queues_of ''ns:team-a'' ?m = [0, 2]" by simp
  have h: "\<forall>q \<in> set (queues_of ''ns:team-a'' ?m). \<not> raising ?m q \<longrightarrow>
             has_room (count_list (queues_of ''ns:team-a'' ?m) q) (queue_objs ?m q)"
    unfolding qs by (simp add: has_room_def Queue_def)
  have f: "namespace_watchers ?m ''ns:team-a'' = Some 0" "stop_flags ?m = {}"
    by (simp_all add: register_namespace_watch_fields(3,6))
  have r: "raising ?m 0" "has_room 1 (queue_objs ?m 2)"
    by (simp_all add: has_room_def Queue_def)
  from broadcast_evicts_raising_queues [OF h, of "''ADDED''" JNull] obtain m' where
    m': "broadcast_event ''ns:team-a'' ''ADDED'' JNull ?m = Returns m'"
      "queues_of ''ns:team-a'' m' = filter (\<lambda>q. \<not> raising ?m q) (queues_of ''ns:team-a'' ?m)"
      "\<forall>q \<in> set (queues_of ''ns:team-a'' ?m). \<not> raising ?m q \<longrightarrow>
           items (queue_objs m' q) =
             items (queue_objs ?m q) @
               replicate (count_list (queues_of ''ns:team-a'' ?m) q) (JDict [(''type'', JString ''ADDED''), (''object'', JNull)])"
      "namespace_watchers m' = namespace_watchers ?m" "stop_flags m' = stop_flags ?m"
    by blast
  have 1: "queues_of ''ns:team-a'' m' = [2]"
    unfolding m'(2) qs by simp
  have 2: "items (queue_objs m' 2) = [JDict [(''type'', JString ''ADDED''), (''object'', JNull)]]"
    using m'(3) unfolding qs by (simp add: Queue_def)
  from m'(1) 1 2 m'(4,5) f qs r show ?thesis by simp
qed

text \<open>
  No call but \<open>unregister_client\<close> tears a watcher down: a register call and a broadcast,
  whatever comes of it, leave the stop flags as they are and every stored watcher stored.
\<close>

lemma only_unregister_tears_down:
  assumes "is_register x \<or> (\<exists>k t obj. x = Broadcast k t obj)"
  shows "stop_flags (apply_op x m) = stop_flags m"
    and "watcher_for k m = Some w \<Longrightarrow> watcher_for k (apply_op x m) = Some w"
proof -
  have "stop_flags (apply_op x m) = stop_flags m
        \<and> (watcher_for k m = Some w \<longrightarrow> watcher_for k (apply_op x m) = Some w)"
  proof (cases x)
    case (Register t q)
    then show ?thesis
      by (simp add: register_fields(3)) (simp add: register_fields(6))
  next
    case (Unregister k' q)
    with assms show ?thesis by simp
  next
    case (Broadcast k' t obj)
    note d = watcher_part_determines
      [OF broadcast_watcher_part [where k = k' and t = t and obj = obj and m = m]]
    from Broadcast d(6) d(2) [of k] show ?thesis by simp
  qed
  then show "stop_flags (apply_op x m) = stop_flags m"
    and "watcher_for k m = Some w \<Longrightarrow> watcher_for k (apply_op x m) = Some w"
    by simp_all
qed



text \<open>
  Claim C2. The claim: delivery to a full queue is a bounded attempt followed by eviction,
  never an unbounded blocking enqueue under the lock. What the code does: it calls
  \<open>queue.put(event_data)\<close> with the defaults \<open>block=True\<close>, \<open>timeout=None\<close>. When any attached
  queue whose \<open>put\<close> does not raise is full, the call does not return: it waits
  inside \<open>put\<close> on a full queue with the lock of the key held, and no queue has been
  evicted.
\<close>

theorem broadcast_waits_on_full_queue:
  assumes "q \<in> set (queues_of k m)" and "put_error (queue_objs m q) = None" and "full (queue_objs m q)"
  shows "\<exists>q' m'. broadcast_event k t obj m = Waits_in_put q' m'
           \<and> full (queue_objs m' q') \<and> put_error (queue_objs m' q') = None
           \<and> queues_of k m' = queues_of k m"
  using assms by (rule broadcast_waits)

theorem broadcast_waits_on_full_queue_witness:
  "queues_of ''ns:team-a'' (register_namespace_watch ''team-a'' 1 (init_manager example_store)) = [1]
   \<and> put_error (example_store 1) = None
   \<and> length (items (example_store 1)) = 100
   \<and> maxsize (example_store 1) = 100
   \<and> (\<exists>q' m'. broadcast_event ''ns:team-a'' ''ADDED'' JNull
                  (register_namespace_watch ''team-a'' 1 (init_manager example_store)) = Waits_in_put q' m'
          \<and> queues_of ''ns:team-a'' m' = [1])"
proof -
  let ?m = "register_namespace_watch ''team-a'' 1 (init_manager example_store)"
  have qs: "queues_of ''ns:team-a'' ?m = [1]" by simp
  have h: "1 \<in> set (queues_of ''ns:team-a'' ?m)" "put_error (queue_objs ?m 1) = None" "full (queue_objs ?m 1)"
    by (simp_all add: full_def)
  have e: "put_error (example_store 1) = None" "length (items (example_store 1)) = 100"
    "maxsize (example_store 1) = 100"
    by simp_all
  from broadcast_waits_on_full_queue [OF h, of "''ADDED''" JNull] qs e show ?thesis
    by auto
qed

lemma stop_watcher_mlog:
  "mlog (stop_watcher k m) =
     (case watcher_for k m of None \<Rightarrow> mlog m | Some w \<Rightarrow> mlog m @ [(INFO, ''Stopped watcher: '' @ k)])"
  by (auto simp: stop_watcher_def watcher_for_def Let_def split: option.split)

lemma stop_watcher_locks: "locks (stop_watcher k m) = locks m"
  by (auto simp: stop_watcher_def Let_def split: option.split)

lemma after_unregister_mlog:
  "mlog (after_unregister k q m) =
     (if remove1 q (queues_of k m) = []
      then (case watcher_for k m of None \<Rightarrow> mlog m | Some w \<Rightarrow> mlog m @ [(INFO, ''Stopped watcher: '' @ k)])
      else mlog m)"
  by (simp add: after_unregister_alt Let_def stop_watcher_mlog split: option.split)

lemma after_unregister_locks: "locks (after_unregister k q m) = insert k (locks m)"
  by (simp add: after_unregister_alt Let_def stop_watcher_locks)

lemma unknown_queue_unregistered:
  assumes "client_queue \<notin> set (queues_of watch_key m)"
  shows "\<forall>k. queues_of k (after_unregister watch_key client_queue m) = queues_of k m"
    and "queue_objs (after_unregister watch_key client_queue m) = queue_objs m"
    and "locks (after_unregister watch_key client_queue m) = insert watch_key (locks m)"
    and "queues_of watch_key m \<noteq> [] \<or> watcher_for watch_key m = None \<Longrightarrow>
           watcher_part (after_unregister watch_key client_queue m) = watcher_part m
         \<and> mlog (after_unregister watch_key client_queue m) = mlog m"
proof -
  have r: "remove1 client_queue (queues_of watch_key m) = queues_of watch_key m"
    using assms by (simp add: remove1_idem)
  show "\<forall>k. queues_of k (after_unregister watch_key client_queue m) = queues_of k m"
    by (simp add: after_unregister_fields(1) r)
  show "queue_objs (after_unregister watch_key client_queue m) = queue_objs m"
    by (simp add: after_unregister_fields(2))
  show "locks (after_unregister watch_key client_queue m) = insert watch_key (locks m)"
    by (rule after_unregister_locks)
  assume n: "queues_of watch_key m \<noteq> [] \<or> watcher_for watch_key m = None"
  then have "remove1 client_queue (queues_of watch_key m) \<noteq> [] \<or> watcher_for watch_key m = None"
    by (simp add: r)
  from unregister_keeps_watchers [OF this]
  have "watcher_part (after_unregister watch_key client_queue m) = watcher_part m" .
  moreover have "mlog (after_unregister watch_key client_queue m) = mlog m"
    using n by (auto simp: after_unregister_mlog r)
  ultimately show "watcher_part (after_unregister watch_key client_queue m) = watcher_part m
         \<and> mlog (after_unregister watch_key client_queue m) = mlog m" by simp
qed

text \<open>
  Claim C10. \<open>unregister_client(key, q)\<close> for a queue that is not in the list of the key
  returns: it raises no exception, the \<open>ValueError\<close> of \<open>list.remove\<close> included. It creates
  the lock of the key, removes no queue of any key and changes no queue object. When no
  watcher is stored for the key, or when other queues are attached to it, the watcher
  tables, the stop flags, the threads and the log are unchanged. The session whose
  snapshot fetch raises makes this call for its own, never registered, queue: its
  generator ends, without raising, in the manager that the call returns, having yielded
  the error event.
\<close>

theorem unregister_unknown_queue:
  assumes "client_queue \<notin> set (queues_of watch_key m)"
  shows "\<exists>m'. unregister_client watch_key client_queue m = Inr m'
       \<and> (\<forall>k. queues_of k m' = queues_of k m)
       \<and> queue_objs m' = queue_objs m
       \<and> locks m' = insert watch_key (locks m)
       \<and> (queues_of watch_key m \<noteq> [] \<or> watcher_for watch_key m = None \<longrightarrow>
            namespace_watchers m' = namespace_watchers m
          \<and> single_watchers m' = single_watchers m
          \<and> event_watchers m' = event_watchers m
          \<and> stop_flags m' = stop_flags m
          \<and> constructed m' = constructed m
          \<and> threads m' = threads m
          \<and> mlog m' = mlog m)
       \<and> (\<forall>namespace e st. watch_key = ''ns:'' @ namespace \<and> mgr st = m \<longrightarrow>
            (\<exists>m''. unregister_client watch_key client_queue (mlog_to ERROR (''Error in SSE stream: '' @ e) m)
                      = Inr m''
               \<and> stream_inference_services namespace client_queue (Inl e) st =
                   Inr (False, st\<lparr>mgr := m'',
                                   emitted := emitted st @
                                     [(now st, format_sse_message ''error''
                                                 (JDict [(''type'', JString ''ERROR''), (''message'', JString e)]))]\<rparr>)
               \<and> (\<forall>k. queues_of k m'' = queues_of k m)
               \<and> locks m'' = insert watch_key (locks m)))"
proof -
  let ?m' = "after_unregister watch_key client_queue m"
  note u = unknown_queue_unregistered [OF assms]
  have A: "unregister_client watch_key client_queue m = Inr ?m'"
    by (rule unregister_client_returns)
  have C: "namespace_watchers ?m' = namespace_watchers m \<and> single_watchers ?m' = single_watchers m
         \<and> event_watchers ?m' = event_watchers m \<and> stop_flags ?m' = stop_flags m
         \<and> constructed ?m' = constructed m \<and> threads ?m' = threads m \<and> mlog ?m' = mlog m"
    if "queues_of watch_key m \<noteq> [] \<or> watcher_for watch_key m = None"
    using u(4) [OF that] by (simp add: watcher_part_def)
  have D: "\<exists>m''. unregister_client watch_key client_queue (mlog_to ERROR (''Error in SSE stream: '' @ e) m)
                      = Inr m''
               \<and> stream_inference_services namespace client_queue (Inl e) st =
                   Inr (False, st\<lparr>mgr := m'',
                                   emitted := emitted st @
                                     [(now st, format_sse_message ''error''
                                                 (JDict [(''type'', JString ''ERROR''), (''message'', JString e)]))]\<rparr>)
               \<and> (\<forall>k. queues_of k m'' = queues_of k m)
               \<and> locks m'' = insert watch_key (locks m)"
    if k: "watch_key = ''ns:'' @ namespace \<and> mgr st = m" for namespace e st
  proof -
    let ?m1 = "mlog_to ERROR (''Error in SSE stream: '' @ e) m"
    let ?m2 = "after_unregister watch_key client_queue ?m1"
    have "client_queue \<notin> set (queues_of watch_key ?m1)"
      using assms by simp
    note v = unknown_queue_unregistered [OF this]
    have r: "unregister_client watch_key client_queue ?m1 = Inr ?m2"
      by (rule unregister_client_returns)
    have s: "stream_inference_services namespace client_queue (Inl e) st =
               Inr (False, st\<lparr>mgr := ?m2,
                               emitted := emitted st @
                                 [(now st, format_sse_message ''error''
                                             (JDict [(''type'', JString ''ERROR''), (''message'', JString e)]))]\<rparr>)"
      using k r by (simp add: stream_inference_services_def on_exception_def closed_def yield_def Let_def)
    have "\<forall>k. queues_of k ?m2 = queues_of k m" "locks ?m2 = insert watch_key (locks m)"
      using v(1) v(3) by simp_all
    with r s show ?thesis
      by (intro exI [of _ ?m2] conjI)
  qed
  show ?thesis
  proof (rule exI [of _ ?m'], intro conjI)
    show "unregister_client watch_key client_queue m = Inr ?m'" by (rule A)
    show "\<forall>k. queues_of k ?m' = queues_of k m" by (rule u(1))
    show "queue_objs ?m' = queue_objs m" by (rule u(2))
    show "locks ?m' = insert watch_key (locks m)" by (rule u(3))
    show "queues_of watch_key m \<noteq> [] \<or> watcher_for watch_key m = None \<longrightarrow>
            namespace_watchers ?m' = namespace_watchers m
          \<and> single_watchers ?m' = single_watchers m
          \<and> event_watchers ?m' = event_watchers m
          \<and> stop_flags ?m' = stop_flags m
          \<and> constructed ?m' = constructed m
          \<and> threads ?m' = threads m
          \<and> mlog ?m' = mlog m"
      by (rule impI) (rule C)
    show "\<forall>namespace e st. watch_key = ''ns:'' @ namespace \<and> mgr st = m \<longrightarrow>
            (\<exists>m''. unregister_client watch_key client_queue (mlog_to ERROR (''Error in SSE stream: '' @ e) m)
                      = Inr m''
               \<and> stream_inference_services namespace client_queue (Inl e) st =
                   Inr (False, st\<lparr>mgr := m'',
                                   emitted := emitted st @
                                     [(now st, format_sse_message ''error''
                                                 (JDict [(''type'', JString ''ERROR''), (''message'', JString e)]))]\<rparr>)
               \<and> (\<forall>k. queues_of k m'' = queues_of k m)
               \<and> locks m'' = insert watch_key (locks m))"
      by (intro allI impI) (rule D)
  qed
qed

theorem unregister_unknown_queue_witness:
  "3 \<notin> set (queues_of ''ns:team-a'' (register_namespace_watch ''team-a'' 2 (init_manager example_store)))
   \<and> queues_of ''ns:team-a'' (register_namespace_watch ''team-a'' 2 (init_manager example_store)) = [2]
   \<and> (\<exists>m'. unregister_client ''ns:team-a'' 3 (register_namespace_watch ''team-a'' 2 (init_manager example_store))
              = Inr m'
         \<and> queues_of ''ns:team-a'' m' = [2]
         \<and> namespace_watchers m' ''ns:team-a'' = Some 0
         \<and> stop_flags m' = {}
         \<and> locks m' = {''ns:team-a''})
   \<and> (\<exists>m'. unregister_client ''ns:team-b'' 3 (register_namespace_watch ''team-a'' 2 (init_manager example_store))
              = Inr m'
         \<and> queues_of ''ns:team-a'' m' = [2]
         \<and> namespace_watchers m' ''ns:team-a'' = Some 0
         \<and> stop_flags m' = {}
         \<and> locks m' = {''ns:team-a'', ''ns:team-b''})"
proof -
  let ?m = "register_namespace_watch ''team-a'' 2 (init_manager example_store)"
  let ?a = "after_unregister ''ns:team-a'' 3 ?m"
  let ?b = "after_unregister ''ns:team-b'' 3 ?m"
  have q: "queues_of ''ns:team-a'' ?m = [2]" "queues_of ''ns:team-b'' ?m = []" by simp_all
  have f: "namespace_watchers ?m ''ns:team-a'' = Some 0" "stop_flags ?m = {}"
    by (simp_all add: register_namespace_watch_fields(3,6))
  have l: "locks ?m = {''ns:team-a''}"
    by (simp add: register_namespace_watch_def Let_def init_manager_def lock_of_def touch_queues_def
          set_queues_def mlog_to_def)
  have w: "watcher_for ''ns:team-b'' ?m = None"
    by (simp add: watcher_for_def startswith_def register_namespace_watch_fields(6))
  have ha: "3 \<notin> set (queues_of ''ns:team-a'' ?m)" by simp
  have hb: "3 \<notin> set (queues_of ''ns:team-b'' ?m)" by simp
  have ra: "unregister_client ''ns:team-a'' 3 ?m = Inr ?a" by (rule unregister_client_returns)
  have rb: "unregister_client ''ns:team-b'' 3 ?m = Inr ?b" by (rule unregister_client_returns)
  from unregister_unknown_queue [OF ha]
  have a: "queues_of ''ns:team-a'' ?a = [2] \<and> namespace_watchers ?a = namespace_watchers ?m
           \<and> stop_flags ?a = stop_flags ?m \<and> locks ?a = insert ''ns:team-a'' (locks ?m)"
    unfolding ra by (simp add: q)
  from unregister_unknown_queue [OF hb]
  have b: "queues_of ''ns:team-a'' ?b = [2] \<and> namespace_watchers ?b = namespace_watchers ?m
           \<and> stop_flags ?b = stop_flags ?m \<and> locks ?b = insert ''ns:team-b'' (locks ?m)"
    unfolding rb by (simp add: q w)
  have 1: "\<exists>m'. unregister_client ''ns:team-a'' 3 ?m = Inr m'
         \<and> queues_of ''ns:team-a'' m' = [2]
         \<and> namespace_watchers m' ''ns:team-a'' = Some 0
         \<and> stop_flags m' = {}
         \<and> locks m' = {''ns:team-a''}"
    using a f l by (intro exI [of _ ?a]) (simp add: ra)
  have 2: "\<exists>m'. unregister_client ''ns:team-b'' 3 ?m = Inr m'
         \<and> queues_of ''ns:team-a'' m' = [2]
         \<and> namespace_watchers m' ''ns:team-a'' = Some 0
         \<and> stop_flags m' = {}
         \<and> locks m' = {''ns:team-a'', ''ns:team-b''}"
    using b f l by (intro exI [of _ ?b]) (auto simp: rb)
  from ha q(1) 1 2 show ?thesis by (intro conjI)
qed

section \<open>Properties of the sessions\<close>





lemma idle_session_fields [simp]:
  "items (queue_objs (mgr idle_session) 2) = []"
  "last_heartbeat idle_session = 0" "now idle_session = 0" "emitted idle_session = []"
  by (simp_all add: idle_session_def Queue_def)




section \<open>Properties of the event callbacks\<close>

lemma consume_events:
  "\<not> stop_requested r \<Longrightarrow> consume_stream cb (events evs) r = (Exhausted, after_events cb evs r)"
proof (induction evs arbitrary: r)
  case Nil
  show ?case by (simp add: events_def after_events_def)
next
  case (Cons ev evs)
  obtain t obj where ev: "ev = (t, obj)" by (cases ev)
  obtain x s where c: "cb t obj (cb_state r) = (x, s)" by (cases "cb t obj (cb_state r)")
  show ?case
  proof (cases x)
    case None
    let ?r = "r\<lparr>cb_state := s\<rparr>"
    have n: "\<not> stop_requested ?r" using Cons.prems by simp
    have "consume_stream cb (events (ev # evs)) r = consume_stream cb (events evs) ?r"
      using Cons.prems c None by (simp add: events_def ev)
    also have "\<dots> = (Exhausted, after_events cb evs ?r)"
      using Cons.IH [OF n] unfolding events_def .
    also have "after_events cb evs ?r = after_events cb (ev # evs) r"
      using c None by (simp add: after_events_def ev)
    finally show ?thesis .
  next
    case (Some e)
    let ?r = "log_to ERROR (''Error in event callback: '' @ e) (r\<lparr>cb_state := s\<rparr>)"
    have n: "\<not> stop_requested ?r" using Cons.prems by simp
    have "consume_stream cb (events (ev # evs)) r = consume_stream cb (events evs) ?r"
      using Cons.prems c Some by (simp add: events_def ev)
    also have "\<dots> = (Exhausted, after_events cb evs ?r)"
      using Cons.IH [OF n] unfolding events_def .
    also have "after_events cb evs ?r = after_events cb (ev # evs) r"
      using c Some by (simp add: after_events_def ev log_to_def split: prod.split)
    finally show ?thesis .
  qed
qed

lemma after_events_fields [simp]:
  "stop_requested (after_events cb evs r) = stop_requested r"
  "slept (after_events cb evs r) = slept r"
  by (simp_all add: after_events_def)


text \<open>
  Claim C7. In a watch loop that has not been asked to stop, with a stream that yields
  well-formed events and no stop request in between, an exception of the callback never
  leaves the \<open>for\<close> loop: whichever calls raise, the loop runs to the end of the events
  (it neither breaks nor raises), every event has been passed to the callback in turn,
  each exception has been logged, and the stop flag and the sleeps are as before. What
  the watcher loop does next is decided by the end of the stream alone, as if no call had
  raised. The three watch methods are this loop with their own start messages. Event by
  event: when the callback raises on an event, the loop goes on with the items that
  follow, whatever they are, from the state the callback has left and with one more entry
  in the log; when it does not raise, the loop goes on in the same way without the entry.
\<close>

theorem callback_exceptions_are_caught:
  assumes "\<not> stop_requested r"
  shows "consume_stream cb (events evs) r = (Exhausted, after_events cb evs r)
       \<and> stop_requested (after_events cb evs r) = stop_requested r
       \<and> slept (after_events cb evs r) = slept r
       \<and> watch_loop msg cb ((events evs, ending) # rest) r =
           (case ending of
              Stream_finished \<Rightarrow> watch_loop msg cb rest (after_events cb evs (log_to INFO msg r))
            | Api_exception e \<Rightarrow>
                watch_loop msg cb rest
                  (reconnect_with_backoff 1 32
                     (log_to ERROR (''Watch stream error: '' @ e) (after_events cb evs (log_to INFO msg r))))
            | Other_exception e \<Rightarrow>
                watch_loop msg cb rest
                  (reconnect_with_backoff 1 32
                     (log_to ERROR (''Unexpected error in watch stream: '' @ e)
                        (after_events cb evs (log_to INFO msg r)))))
       \<and> watch_namespace ns cb ((events evs, Stream_finished) # rest) r =
           watch_namespace ns cb rest
             (after_events cb evs (log_to INFO (''Starting watch for InferenceServices in namespace: '' @ ns) r))
       \<and> watch_single ns name cb ((events evs, Stream_finished) # rest) r =
           watch_single ns name cb rest
             (after_events cb evs (log_to INFO (''Starting watch for InferenceService: '' @ ns @ ''/'' @ name) r))
       \<and> watch_events ns name cb ((events evs, Stream_finished) # rest) r =
           watch_events ns name cb rest
             (after_events cb evs (log_to INFO (''Starting watch for Events in namespace: '' @ ns) r))
       \<and> (cb t obj (cb_state r) = (Some e, s) \<longrightarrow>
            consume_stream cb (Event (Some t) (Some obj) # rest_items) r =
              consume_stream cb rest_items
                (log_to ERROR (''Error in event callback: '' @ e) (r\<lparr>cb_state := s\<rparr>)))
       \<and> (cb t obj (cb_state r) = (None, s) \<longrightarrow>
            consume_stream cb (Event (Some t) (Some obj) # rest_items) r =
              consume_stream cb rest_items (r\<lparr>cb_state := s\<rparr>))"
proof -
  have c: "consume_stream cb (events evs) (log_to INFO m r) = (Exhausted, after_events cb evs (log_to INFO m r))"
    for m
    using assms by (intro consume_events) simp
  have w: "watch_loop m cb ((events evs, Stream_finished) # rest) r =
             watch_loop m cb rest (after_events cb evs (log_to INFO m r))" for m
    using assms by (simp add: c)
  have l: "watch_loop msg cb ((events evs, ending) # rest) r =
           (case ending of
              Stream_finished \<Rightarrow> watch_loop msg cb rest (after_events cb evs (log_to INFO msg r))
            | Api_exception e \<Rightarrow>
                watch_loop msg cb rest
                  (reconnect_with_backoff 1 32
                     (log_to ERROR (''Watch stream error: '' @ e) (after_events cb evs (log_to INFO msg r))))
            | Other_exception e \<Rightarrow>
                watch_loop msg cb rest
                  (reconnect_with_backoff 1 32
                     (log_to ERROR (''Unexpected error in watch stream: '' @ e)
                        (after_events cb evs (log_to INFO msg r)))))"
    using assms by (cases ending) (simp_all add: c)
  have st: "cb t obj (cb_state r) = (Some e, s) \<longrightarrow>
            consume_stream cb (Event (Some t) (Some obj) # rest_items) r =
              consume_stream cb rest_items
                (log_to ERROR (''Error in event callback: '' @ e) (r\<lparr>cb_state := s\<rparr>))"
    "cb t obj (cb_state r) = (None, s) \<longrightarrow>
            consume_stream cb (Event (Some t) (Some obj) # rest_items) r =
              consume_stream cb rest_items (r\<lparr>cb_state := s\<rparr>)"
    using assms by simp_all
  from consume_events [OF assms] l w have "consume_stream cb (events evs) r = (Exhausted, after_events cb evs r)
       \<and> stop_requested (after_events cb evs r) = stop_requested r
       \<and> slept (after_events cb evs r) = slept r
       \<and> watch_loop msg cb ((events evs, ending) # rest) r =
           (case ending of
              Stream_finished \<Rightarrow> watch_loop msg cb rest (after_events cb evs (log_to INFO msg r))
            | Api_exception e \<Rightarrow>
                watch_loop msg cb rest
                  (reconnect_with_backoff 1 32
                     (log_to ERROR (''Watch stream error: '' @ e) (after_events cb evs (log_to INFO msg r))))
            | Other_exception e \<Rightarrow>
                watch_loop msg cb rest
                  (reconnect_with_backoff 1 32
                     (log_to ERROR (''Unexpected error in watch stream: '' @ e)
                        (after_events cb evs (log_to INFO msg r)))))
       \<and> watch_namespace ns cb ((events evs, Stream_finished) # rest) r =
           watch_namespace ns cb rest
             (after_events cb evs (log_to INFO (''Starting watch for InferenceServices in namespace: '' @ ns) r))
       \<and> watch_single ns name cb ((events evs, Stream_finished) # rest) r =
           watch_single ns name cb rest
             (after_events cb evs (log_to INFO (''Starting watch for InferenceService: '' @ ns @ ''/'' @ name) r))
       \<and> watch_events ns name cb ((events evs, Stream_finished) # rest) r =
           watch_events ns name cb rest
             (after_events cb evs (log_to INFO (''Starting watch for Events in namespace: '' @ ns) r))"
    by (simp add: watch_namespace_def watch_single_def watch_events_def)
  with st show ?thesis by (simp only: simp_thms)
qed


theorem callback_exceptions_are_caught_witness:
  "\<not> stop_requested (new_watcher (register_namespace_watch ''team-a'' 2 (init_manager example_store)))
   \<and> fst (consume_stream example_callback
              [Event (Some ''BOOM'') (Some JNull), Event (Some ''ADDED'') (Some JNull)]
              (new_watcher (register_namespace_watch ''team-a'' 2 (init_manager example_store)))) = Exhausted
   \<and> wlog (snd (consume_stream example_callback
              [Event (Some ''BOOM'') (Some JNull), Event (Some ''ADDED'') (Some JNull)]
              (new_watcher (register_namespace_watch ''team-a'' 2 (init_manager example_store)))))
       = [(ERROR, ''Error in event callback: boom'')]
   \<and> items (queue_objs (cb_state (snd (consume_stream example_callback
              [Event (Some ''BOOM'') (Some JNull), Event (Some ''ADDED'') (Some JNull)]
              (new_watcher (register_namespace_watch ''team-a'' 2 (init_manager example_store)))))) 2)
       = [JDict [(''type'', JString ''ADDED''), (''object'', JNull)]]
   \<and> example_callback ''BOOM'' JNull (register_namespace_watch ''team-a'' 2 (init_manager example_store)) =
       (Some ''boom'', register_namespace_watch ''team-a'' 2 (init_manager example_store))
   \<and> consume_stream example_callback
        [Event (Some ''BOOM'') (Some JNull), Event (Some ''ADDED'') (Some JNull)]
        (new_watcher (register_namespace_watch ''team-a'' 2 (init_manager example_store))) =
       consume_stream example_callback [Event (Some ''ADDED'') (Some JNull)]
         (log_to ERROR ''Error in event callback: boom''
            (new_watcher (register_namespace_watch ''team-a'' 2 (init_manager example_store))))
   \<and> example_callback ''ADDED'' JNull (register_namespace_watch ''team-a'' 2 (init_manager example_store)) =
       (None, state_of (broadcast_event ''ns:team-a'' ''ADDED'' JNull
                          (register_namespace_watch ''team-a'' 2 (init_manager example_store))))
   \<and> consume_stream example_callback [Event (Some ''ADDED'') (Some JNull)]
        (new_watcher (register_namespace_watch ''team-a'' 2 (init_manager example_store))) =
       (Exhausted,
        new_watcher (state_of (broadcast_event ''ns:team-a'' ''ADDED'' JNull
                                 (register_namespace_watch ''team-a'' 2 (init_manager example_store)))))"
proof -
  let ?m = "register_namespace_watch ''team-a'' 2 (init_manager example_store)"
  let ?r = "new_watcher ?m"
  let ?evs = "[(''BOOM'', JNull), (''ADDED'', JNull)]"
  have h: "\<not> stop_requested ?r" by (simp add: new_watcher_def)
  have cs: "cb_state ?r = ?m" by (simp add: new_watcher_def)
  have e: "events ?evs = [Event (Some ''BOOM'') (Some JNull), Event (Some ''ADDED'') (Some JNull)]"
    by (simp add: events_def)
  have b: "broadcast_event ''ns:team-a'' ''ADDED'' JNull ?m =
             Returns (touch_queues ''ns:team-a'' (lock_of ''ns:team-a'' ?m)
                \<lparr>queue_objs := (queue_objs ?m)
                   (2 := (Queue 100)\<lparr>items := [JDict [(''type'', JString ''ADDED''), (''object'', JNull)]]\<rparr>)\<rparr>)"
    by (simp add: broadcast_event_def Let_def put_def full_def Queue_def)
  have c: "callback_run example_callback ?evs ?m =
             ([''boom''], state_of (broadcast_event ''ns:team-a'' ''ADDED'' JNull ?m))"
    by (simp add: example_callback_def)
  from callback_exceptions_are_caught [OF h, where cb = example_callback and evs = ?evs]
  have "consume_stream example_callback (events ?evs) ?r = (Exhausted, after_events example_callback ?evs ?r)"
    by (rule conjunct1)
  then have a: "consume_stream example_callback
               [Event (Some ''BOOM'') (Some JNull), Event (Some ''ADDED'') (Some JNull)] ?r
             = (Exhausted, after_events example_callback ?evs ?r)"
    unfolding e .
  have w: "wlog (after_events example_callback ?evs ?r) = [(ERROR, ''Error in event callback: boom'')]"
    unfolding after_events_def cs c by (simp add: new_watcher_def)
  have i: "items (queue_objs (cb_state (after_events example_callback ?evs ?r)) 2)
                 = [JDict [(''type'', JString ''ADDED''), (''object'', JNull)]]"
    unfolding after_events_def cs c b by (simp add: state_of_def)
  have x: "example_callback ''BOOM'' JNull ?m = (Some ''boom'', ?m)"
    by (simp add: example_callback_def)
  have st: "consume_stream example_callback
                   [Event (Some ''BOOM'') (Some JNull), Event (Some ''ADDED'') (Some JNull)] ?r =
                 consume_stream example_callback [Event (Some ''ADDED'') (Some JNull)]
                   (log_to ERROR ''Error in event callback: boom'' ?r)"
  proof -
    have x': "example_callback ''BOOM'' JNull (cb_state ?r) = (Some ''boom'', ?m)"
      unfolding cs by (rule x)
    have u: "?r\<lparr>cb_state := ?m\<rparr> = ?r" by (simp add: new_watcher_def)
    from callback_exceptions_are_caught [OF h, where cb = example_callback and t = "''BOOM''"
           and obj = JNull and e = "''boom''" and s = ?m
           and rest_items = "[Event (Some ''ADDED'') (Some JNull)]",
           THEN conjunct2, THEN conjunct2, THEN conjunct2, THEN conjunct2, THEN conjunct2,
           THEN conjunct2, THEN conjunct2, THEN conjunct1]
    have "example_callback ''BOOM'' JNull (cb_state ?r) = (Some ''boom'', ?m) \<longrightarrow>
            consume_stream example_callback
              (Event (Some ''BOOM'') (Some JNull) # [Event (Some ''ADDED'') (Some JNull)]) ?r =
            consume_stream example_callback [Event (Some ''ADDED'') (Some JNull)]
              (log_to ERROR (''Error in event callback: '' @ ''boom'') (?r\<lparr>cb_state := ?m\<rparr>))" .
    from this [rule_format, OF x'] show ?thesis unfolding u by simp
  qed
  have f: "fst (consume_stream example_callback
                  [Event (Some ''BOOM'') (Some JNull), Event (Some ''ADDED'') (Some JNull)] ?r) = Exhausted"
    "wlog (snd (consume_stream example_callback
                  [Event (Some ''BOOM'') (Some JNull), Event (Some ''ADDED'') (Some JNull)] ?r))
       = [(ERROR, ''Error in event callback: boom'')]"
    "items (queue_objs (cb_state (snd (consume_stream example_callback
                  [Event (Some ''BOOM'') (Some JNull), Event (Some ''ADDED'') (Some JNull)] ?r))) 2)
       = [JDict [(''type'', JString ''ADDED''), (''object'', JNull)]]"
    unfolding a using w i by simp_all
  let ?s = "state_of (broadcast_event ''ns:team-a'' ''ADDED'' JNull ?m)"
  have y: "example_callback ''ADDED'' JNull ?m = (None, ?s)"
    by (simp add: example_callback_def)
  have y': "example_callback ''ADDED'' JNull (cb_state ?r) = (None, ?s)"
    unfolding cs by (rule y)
  have u: "?r\<lparr>cb_state := ?s\<rparr> = new_watcher ?s" by (simp add: new_watcher_def)
  from callback_exceptions_are_caught [OF h, where cb = example_callback and t = "''ADDED''"
         and obj = JNull and s = ?s and rest_items = "[]",
         THEN conjunct2, THEN conjunct2, THEN conjunct2, THEN conjunct2, THEN conjunct2,
         THEN conjunct2, THEN conjunct2, THEN conjunct2]
  have "example_callback ''ADDED'' JNull (cb_state ?r) = (None, ?s) \<longrightarrow>
          consume_stream example_callback [Event (Some ''ADDED'') (Some JNull)] ?r =
          consume_stream example_callback [] (?r\<lparr>cb_state := ?s\<rparr>)" .
  from this [rule_format, OF y']
  have n: "consume_stream example_callback [Event (Some ''ADDED'') (Some JNull)] ?r = (Exhausted, new_watcher ?s)"
    unfolding u by (simp only: consume_stream.simps(1))
  from h f x st y n show ?thesis by (intro conjI)
qed

section \<open>Properties of the namespace route\<close>

lemma allowed_list_nonempty: "allowed_list env \<noteq> [] \<Longrightarrow> strip env \<noteq> []"
proof (rule ccontr)
  assume a: "allowed_list env \<noteq> []" and "\<not> strip env \<noteq> []"
  then have e: "strip env = []" by simp
  have "allowed_list env = map strip (filter (\<lambda>ns. strip ns \<noteq> []) [[]])"
    unfolding allowed_list_def e by simp
  also have "\<dots> = []"
    by (simp add: strip_def)
  finally show False using a by simp
qed

text \<open>
  Claim C8. With the allow-list \<open>a,ghost\<close> and the cluster namespaces a, b, c the route
  answers with exactly a and logs one warning, which names ghost. In general, for an
  allow-list with at least one entry: when some entry is a namespace of the cluster, the
  answer is the entries that are, in the order of the list, and the entries that are not
  are named in one warning (no warning when there is none); when no entry is a namespace
  of the cluster, the answer is the full list of the cluster's namespaces, with a warning
  of the fallback.
\<close>

theorem allow_list_filters_namespaces:
  "get_namespaces (Inr [''a'', ''b'', ''c'']) (Some ''a,ghost'') =
     (Success_response ''namespaces'' [''a''],
      [(WARNING, ''Invalid namespaces in ALLOWED_NAMESPACES (ignored): %s'', [Arg_list [''ghost'']])])
   \<and> (allowed_list env \<noteq> [] \<and> filter (\<lambda>ns. ns \<in> set names) (allowed_list env) \<noteq> [] \<longrightarrow>
        get_namespaces (Inr names) (Some env) =
          (Success_response ''namespaces'' (filter (\<lambda>ns. ns \<in> set names) (allowed_list env)),
           if filter (\<lambda>ns. ns \<notin> set names) (allowed_list env) \<noteq> []
           then [(WARNING, ''Invalid namespaces in ALLOWED_NAMESPACES (ignored): %s'',
                  [Arg_list (filter (\<lambda>ns. ns \<notin> set names) (allowed_list env))])]
           else []))
   \<and> (allowed_list env \<noteq> [] \<and> filter (\<lambda>ns. ns \<in> set names) (allowed_list env) = [] \<longrightarrow>
        get_namespaces (Inr names) (Some env) =
          (Success_response ''namespaces'' names,
           [(WARNING, ''None of the ALLOWED_NAMESPACES exist in cluster. Falling back to all namespaces.'',
             [])]))"
proof (intro conjI impI)
  show "get_namespaces (Inr [''a'', ''b'', ''c'']) (Some ''a,ghost'') =
     (Success_response ''namespaces'' [''a''],
      [(WARNING, ''Invalid namespaces in ALLOWED_NAMESPACES (ignored): %s'', [Arg_list [''ghost'']])])"
    by (simp add: get_namespaces_def strip_def isspace_def Let_def)
next
  assume a: "allowed_list env \<noteq> [] \<and> filter (\<lambda>ns. ns \<in> set names) (allowed_list env) \<noteq> []"
  then have s: "strip env \<noteq> []" by (simp add: allowed_list_nonempty)
  from a s show "get_namespaces (Inr names) (Some env) =
          (Success_response ''namespaces'' (filter (\<lambda>ns. ns \<in> set names) (allowed_list env)),
           if filter (\<lambda>ns. ns \<notin> set names) (allowed_list env) \<noteq> []
           then [(WARNING, ''Invalid namespaces in ALLOWED_NAMESPACES (ignored): %s'',
                  [Arg_list (filter (\<lambda>ns. ns \<notin> set names) (allowed_list env))])]
           else [])"
    unfolding get_namespaces_def allowed_list_def Let_def by simp
next
  assume a: "allowed_list env \<noteq> [] \<and> filter (\<lambda>ns. ns \<in> set names) (allowed_list env) = []"
  then have s: "strip env \<noteq> []" by (simp add: allowed_list_nonempty)
  from a s show "get_namespaces (Inr names) (Some env) =
          (Success_response ''namespaces'' names,
           [(WARNING, ''None of the ALLOWED_NAMESPACES exist in cluster. Falling back to all namespaces.'',
             [])])"
    unfolding get_namespaces_def allowed_list_def Let_def by simp
qed


theorem allow_list_filters_namespaces_witness:
  "allowed_list '' a , ghost ,b'' = [''a'', ''ghost'', ''b'']
   \<and> get_namespaces (Inr [''a'', ''b'', ''c'']) (Some '' a , ghost ,b'') =
       (Success_response ''namespaces'' [''a'', ''b''],
        [(WARNING, ''Invalid namespaces in ALLOWED_NAMESPACES (ignored): %s'', [Arg_list [''ghost'']])])
   \<and> allowed_list ''x,ghost'' = [''x'', ''ghost'']
   \<and> get_namespaces (Inr [''a'', ''b'', ''c'']) (Some ''x,ghost'') =
       (Success_response ''namespaces'' [''a'', ''b'', ''c''],
        [(WARNING, ''None of the ALLOWED_NAMESPACES exist in cluster. Falling back to all namespaces.'',
          [])])"
proof -
  have a1: "allowed_list '' a , ghost ,b'' = [''a'', ''ghost'', ''b'']"
    by (simp add: allowed_list_def strip_def isspace_def)
  have a2: "allowed_list ''x,ghost'' = [''x'', ''ghost'']"
    by (simp add: allowed_list_def strip_def isspace_def)
  note t1 = allow_list_filters_namespaces [where env = "'' a , ghost ,b''" and names = "[''a'', ''b'', ''c'']"]
  note t2 = allow_list_filters_namespaces [where env = "''x,ghost''" and names = "[''a'', ''b'', ''c'']"]
  from t1 [THEN conjunct2, THEN conjunct1]
  have g1: "get_namespaces (Inr [''a'', ''b'', ''c'']) (Some '' a , ghost ,b'') =
       (Success_response ''namespaces'' [''a'', ''b''],
        [(WARNING, ''Invalid namespaces in ALLOWED_NAMESPACES (ignored): %s'', [Arg_list [''ghost'']])])"
    unfolding a1 by simp
  from t2 [THEN conjunct2, THEN conjunct2]
  have g2: "get_namespaces (Inr [''a'', ''b'', ''c'']) (Some ''x,ghost'') =
       (Success_response ''namespaces'' [''a'', ''b'', ''c''],
        [(WARNING, ''None of the ALLOWED_NAMESPACES exist in cluster. Falling back to all namespaces.'',
          [])])"
    unfolding a2 by simp
  from a1 g1 a2 g2 show ?thesis by (intro conjI)
qed

section \<open>Properties of the wire format\<close>

lemma lower_char_idem: "lower_char (lower_char c) = lower_char c"
  by (auto simp: lower_char_def Let_def)

lemma lower_idem: "lower (lower s) = lower s"
  by (simp add: lower_def lower_char_idem)

lemma session_emits:
  assumes "q \<in> set (queues_of k m)" and "items (queue_objs m q) = []" and "\<not> raising m q"
    and "\<forall>q' \<in> set (queues_of k m). \<not> raising m q' \<longrightarrow>
           has_room (count_list (queues_of k m) q') (queue_objs m q')"
  shows "\<exists>m'. broadcast_event k t obj m = Returns m'
           \<and> (\<forall>st. mgr st = m' \<longrightarrow>
                (\<exists>st'. loop_iteration q st = Inr st'
                   \<and> emitted st' = emitted st @
                        [(now st, format_sse_message t (JDict [(''type'', JString t), (''object'', obj)]))]
                   \<and> last_heartbeat st' = now st))"
proof -
  let ?ev = "JDict [(''type'', JString t), (''object'', obj)]"
  from broadcast_returns [OF assms(4), of t obj] obtain m' where
    m': "broadcast_event k t obj m = Returns m'"
        "queue_objs m' = delivered ?ev (queues_of k m) m"
    by blast
  from assms(1) have "count_list (queues_of k m) q \<noteq> 0"
    by (simp add: count_list_0_iff)
  then obtain n where n: "count_list (queues_of k m) q = Suc n"
    by (cases "count_list (queues_of k m) q") auto
  have i: "items (queue_objs m' q) = ?ev # replicate n ?ev"
    using assms(2,3) by (simp add: m'(2) delivered_def n)
  have "\<exists>st'. loop_iteration q st = Inr st'
          \<and> emitted st' = emitted st @ [(now st, format_sse_message t ?ev)]
          \<and> last_heartbeat st' = now st"
    if "mgr st = m'" for st
    using that i
    by (simp add: loop_iteration_def get_def Let_def yield_def format_sse_message_def lower_idem)
  with m'(1) show ?thesis by blast
qed


text \<open>
  Claim C4. A key has a session attached whose queue is a real queue, empty at the
  moment, and every real queue of the key has room for the envelope. Then the broadcast
  of an event of type \<open>MODIFIED\<close> with the object \<open>{"metadata": {"name": "x"}}\<close>
  returns, and the next turn of the session's loop yields exactly one chunk, the text
  \<open>event: modified\ndata: {"type": "MODIFIED", "object": {"metadata": {"name": "x"}}}\n\n\<close>
  (written below with \<open>CHR 0x22\<close> for the double quote and \<open>CHR 0x0A\<close> for the line
  feed). For every event type and object the chunk is \<open>event: \<close>, the type in lower
  case, a line feed, \<open>data: \<close>, the JSON text of the envelope of \<open>type\<close> and \<open>object\<close>,
  and two line feeds.
\<close>

theorem modified_event_wire_format:
  assumes "q \<in> set (queues_of k m)" and "items (queue_objs m q) = []" and "\<not> raising m q"
    and "\<forall>q' \<in> set (queues_of k m). \<not> raising m q' \<longrightarrow>
           has_room (count_list (queues_of k m) q') (queue_objs m q')"
  shows "(\<exists>m'. broadcast_event k ''MODIFIED'' (JDict [(''metadata'', JDict [(''name'', JString ''x'')])]) m = Returns m'
            \<and> (\<forall>st. mgr st = m' \<longrightarrow>
                 (\<exists>st'. loop_iteration q st = Inr st'
                    \<and> emitted st' = emitted st @
                        [(now st,
                          ''event: modified'' @ [CHR 0x0A] @ ''data: {'' @ [CHR 0x22] @ ''type'' @ [CHR 0x22]
                          @ '': '' @ [CHR 0x22] @ ''MODIFIED'' @ [CHR 0x22] @ '', '' @ [CHR 0x22] @ ''object''
                          @ [CHR 0x22] @ '': {'' @ [CHR 0x22] @ ''metadata'' @ [CHR 0x22] @ '': {''
                          @ [CHR 0x22] @ ''name'' @ [CHR 0x22] @ '': '' @ [CHR 0x22] @ ''x'' @ [CHR 0x22]
                          @ ''}}}'' @ [CHR 0x0A, CHR 0x0A])])))
       \<and> (\<exists>m'. broadcast_event k t obj m = Returns m'
            \<and> (\<forall>st. mgr st = m' \<longrightarrow>
                 (\<exists>st'. loop_iteration q st = Inr st'
                    \<and> emitted st' = emitted st @
                        [(now st,
                          ''event: '' @ lower t @ [CHR 0x0A] @ ''data: ''
                          @ json_dumps (JDict [(''type'', JString t), (''object'', obj)])
                          @ [CHR 0x0A, CHR 0x0A])])))"
proof -
  have l: "format_sse_message ''MODIFIED''
             (JDict [(''type'', JString ''MODIFIED''), (''object'', (JDict [(''metadata'', JDict [(''name'', JString ''x'')])]))]) =
           ''event: modified'' @ [CHR 0x0A] @ ''data: {'' @ [CHR 0x22] @ ''type'' @ [CHR 0x22]
           @ '': '' @ [CHR 0x22] @ ''MODIFIED'' @ [CHR 0x22] @ '', '' @ [CHR 0x22] @ ''object''
           @ [CHR 0x22] @ '': {'' @ [CHR 0x22] @ ''metadata'' @ [CHR 0x22] @ '': {''
           @ [CHR 0x22] @ ''name'' @ [CHR 0x22] @ '': '' @ [CHR 0x22] @ ''x'' @ [CHR 0x22]
           @ ''}}}'' @ [CHR 0x0A, CHR 0x0A]"
    by code_simp
  have g: "\<exists>m'. broadcast_event k t' obj' m = Returns m'
            \<and> (\<forall>st. mgr st = m' \<longrightarrow>
                 (\<exists>st'. loop_iteration q st = Inr st'
                    \<and> emitted st' = emitted st @
                        [(now st, format_sse_message t' (JDict [(''type'', JString t'), (''object'', obj')]))]))"
    for t' obj'
    using session_emits [OF assms, where t = t' and obj = obj'] by blast
  from g [of "''MODIFIED''" "(JDict [(''metadata'', JDict [(''name'', JString ''x'')])])"] have a: "\<exists>m'. broadcast_event k ''MODIFIED'' (JDict [(''metadata'', JDict [(''name'', JString ''x'')])]) m = Returns m'
            \<and> (\<forall>st. mgr st = m' \<longrightarrow>
                 (\<exists>st'. loop_iteration q st = Inr st'
                    \<and> emitted st' = emitted st @
                        [(now st,
                          ''event: modified'' @ [CHR 0x0A] @ ''data: {'' @ [CHR 0x22] @ ''type'' @ [CHR 0x22]
                          @ '': '' @ [CHR 0x22] @ ''MODIFIED'' @ [CHR 0x22] @ '', '' @ [CHR 0x22] @ ''object''
                          @ [CHR 0x22] @ '': {'' @ [CHR 0x22] @ ''metadata'' @ [CHR 0x22] @ '': {''
                          @ [CHR 0x22] @ ''name'' @ [CHR 0x22] @ '': '' @ [CHR 0x22] @ ''x'' @ [CHR 0x22]
                          @ ''}}}'' @ [CHR 0x0A, CHR 0x0A])]))"
    unfolding l .
  from g [of t obj] have b: "\<exists>m'. broadcast_event k t obj m = Returns m'
            \<and> (\<forall>st. mgr st = m' \<longrightarrow>
                 (\<exists>st'. loop_iteration q st = Inr st'
                    \<and> emitted st' = emitted st @
                        [(now st,
                          ''event: '' @ lower t @ [CHR 0x0A] @ ''data: ''
                          @ json_dumps (JDict [(''type'', JString t), (''object'', obj)])
                          @ [CHR 0x0A, CHR 0x0A])]))"
    unfolding format_sse_message_def .
  from a b show ?thesis by (rule conjI)
qed

theorem modified_event_wire_format_witness:
  "2 \<in> set (queues_of ''ns:team-a'' (mgr idle_session))
   \<and> items (queue_objs (mgr idle_session) 2) = []
   \<and> \<not> raising (mgr idle_session) 2
   \<and> returns (broadcast_event ''ns:team-a'' ''MODIFIED'' (JDict [(''metadata'', JDict [(''name'', JString ''x'')])]) (mgr idle_session))
   \<and> map_sum fst emitted
       (loop_iteration 2
          (idle_session\<lparr>mgr := state_of (broadcast_event ''ns:team-a'' ''MODIFIED'' (JDict [(''metadata'', JDict [(''name'', JString ''x'')])])
                                          (mgr idle_session))\<rparr>)) =
       Inr [(0,
             ''event: modified'' @ [CHR 0x0A] @ ''data: {'' @ [CHR 0x22] @ ''type'' @ [CHR 0x22]
             @ '': '' @ [CHR 0x22] @ ''MODIFIED'' @ [CHR 0x22] @ '', '' @ [CHR 0x22] @ ''object''
             @ [CHR 0x22] @ '': {'' @ [CHR 0x22] @ ''metadata'' @ [CHR 0x22] @ '': {''
             @ [CHR 0x22] @ ''name'' @ [CHR 0x22] @ '': '' @ [CHR 0x22] @ ''x'' @ [CHR 0x22]
             @ ''}}}'' @ [CHR 0x0A, CHR 0x0A])]"
proof -
  have qs: "queues_of ''ns:team-a'' (mgr idle_session) = [2]"
    by (simp add: idle_session_def)
  have h: "2 \<in> set (queues_of ''ns:team-a'' (mgr idle_session))"
    "items (queue_objs (mgr idle_session) 2) = []"
    "\<not> raising (mgr idle_session) 2"
    "\<forall>q' \<in> set (queues_of ''ns:team-a'' (mgr idle_session)). \<not> raising (mgr idle_session) q' \<longrightarrow>
       has_room (count_list (queues_of ''ns:team-a'' (mgr idle_session)) q') (queue_objs (mgr idle_session) q')"
    unfolding qs by (simp_all add: raising_def has_room_def idle_session_def Queue_def)
  from modified_event_wire_format [OF h, THEN conjunct1] obtain m' where
    m': "broadcast_event ''ns:team-a'' ''MODIFIED'' (JDict [(''metadata'', JDict [(''name'', JString ''x'')])]) (mgr idle_session) = Returns m'"
    and e: "\<forall>st. mgr st = m' \<longrightarrow>
                 (\<exists>st'. loop_iteration 2 st = Inr st'
                    \<and> emitted st' = emitted st @
                        [(now st,
                          ''event: modified'' @ [CHR 0x0A] @ ''data: {'' @ [CHR 0x22] @ ''type'' @ [CHR 0x22]
                          @ '': '' @ [CHR 0x22] @ ''MODIFIED'' @ [CHR 0x22] @ '', '' @ [CHR 0x22] @ ''object''
                          @ [CHR 0x22] @ '': {'' @ [CHR 0x22] @ ''metadata'' @ [CHR 0x22] @ '': {''
                          @ [CHR 0x22] @ ''name'' @ [CHR 0x22] @ '': '' @ [CHR 0x22] @ ''x'' @ [CHR 0x22]
                          @ ''}}}'' @ [CHR 0x0A, CHR 0x0A])])"
    by blast
  from e [rule_format, of "idle_session\<lparr>mgr := m'\<rparr>"] obtain st' where
    st': "loop_iteration 2 (idle_session\<lparr>mgr := m'\<rparr>) = Inr st'"
         "emitted st' = [(0,
                          ''event: modified'' @ [CHR 0x0A] @ ''data: {'' @ [CHR 0x22] @ ''type'' @ [CHR 0x22]
                          @ '': '' @ [CHR 0x22] @ ''MODIFIED'' @ [CHR 0x22] @ '', '' @ [CHR 0x22] @ ''object''
                          @ [CHR 0x22] @ '': {'' @ [CHR 0x22] @ ''metadata'' @ [CHR 0x22] @ '': {''
                          @ [CHR 0x22] @ ''name'' @ [CHR 0x22] @ '': '' @ [CHR 0x22] @ ''x'' @ [CHR 0x22]
                          @ ''}}}'' @ [CHR 0x0A, CHR 0x0A])]"
    by auto
  show ?thesis
    using h(1-3) unfolding m' by (simp add: returns_def state_of_def st')
qed

end
